theory Spec2Isabelle
  imports Complex_Main "HOL-Library.Multiset"
begin

section \<open>The crawl queue (app/services/crawl_queue.py)\<close>

subsection \<open>CrawlPriority and CrawlItem\<close>

text \<open>
  \<open>CrawlPriority\<close> is the enum of the source with its integer values. \<open>CrawlItem\<close> is the
  dataclass declared with \<open>order=True\<close>; every field but \<open>priority\<close> has
  \<open>compare=False\<close>, so the generated \<open>__lt__\<close> compares the priorities and nothing else.
  The field \<open>added_at\<close> (the wall-clock time of construction, which no method reads) is
  left out. The free-form \<open>metadata\<close> dict is an association list.
\<close>

datatype CrawlPriority = CRITICAL | HIGH | MEDIUM | LOW | DEFERRED

fun priority_value :: "CrawlPriority \<Rightarrow> int" where
  "priority_value CRITICAL = 0"
| "priority_value HIGH = 1"
| "priority_value MEDIUM = 2"
| "priority_value LOW = 3"
| "priority_value DEFERRED = 4"

record CrawlItem =
  priority :: int
  url :: string
  depth :: int
  referrer :: "string option"
  retries :: int
  metadata :: "(string \<times> string) list"

definition item_lt :: "CrawlItem \<Rightarrow> CrawlItem \<Rightarrow> bool" where
  "item_lt a b \<longleftrightarrow> priority a < priority b"

subsection \<open>heapq on a list of CrawlItem\<close>

text \<open>
  The queue is a Python list handled by \<open>heapq.heappush\<close> and \<open>heapq.heappop\<close>. Both are
  written out here as the standard library has them: \<open>_siftdown\<close> moves the new item
  towards the root while it is smaller than its parent, \<open>_siftup\<close> moves the smaller child
  up until a leaf is reached and then sifts the displaced item down from there. The only
  comparison either of them makes is \<open>item_lt\<close>.
\<close>

function siftdown_from :: "CrawlItem \<Rightarrow> CrawlItem list \<Rightarrow> nat \<Rightarrow> nat \<Rightarrow> CrawlItem list" where
  "siftdown_from newitem heap startpos pos =
     (if pos > startpos then
        (let parentpos = (pos - 1) div 2;
             parent = heap ! parentpos
         in if item_lt newitem parent
            then siftdown_from newitem (heap[pos := parent]) startpos parentpos
            else heap[pos := newitem])
      else heap[pos := newitem])"
  by pat_completeness auto
termination
  by (relation "measure (\<lambda>(newitem, heap, startpos, pos). pos)") auto

declare siftdown_from.simps [simp del]

definition siftdown :: "CrawlItem list \<Rightarrow> nat \<Rightarrow> nat \<Rightarrow> CrawlItem list" where
  "siftdown heap startpos pos = siftdown_from (heap ! pos) heap startpos pos"

function siftup_loop :: "CrawlItem list \<Rightarrow> nat \<Rightarrow> CrawlItem list \<times> nat" where
  "siftup_loop heap pos =
     (let endpos = length heap;
          childpos = 2 * pos + 1
      in if childpos < endpos then
           (let rightpos = childpos + 1;
                childpos' = (if rightpos < endpos \<and> \<not> item_lt (heap ! childpos) (heap ! rightpos)
                             then rightpos else childpos)
            in siftup_loop (heap[pos := heap ! childpos']) childpos')
         else (heap, pos))"
  by pat_completeness auto
termination
  by (relation "measure (\<lambda>(heap, pos). length heap - pos)") auto

declare siftup_loop.simps [simp del]

definition siftup :: "CrawlItem list \<Rightarrow> nat \<Rightarrow> CrawlItem list" where
  "siftup heap pos =
     (let startpos = pos;
          newitem = heap ! pos;
          (heap', pos') = siftup_loop heap pos
      in siftdown (heap'[pos' := newitem]) startpos pos')"

definition heappush :: "CrawlItem list \<Rightarrow> CrawlItem \<Rightarrow> CrawlItem list" where
  "heappush heap item = siftdown (heap @ [item]) 0 (length heap)"

text \<open>\<open>heappop\<close> raises IndexError on an empty list: that is the result \<open>None\<close>.\<close>

definition heappop :: "CrawlItem list \<Rightarrow> (CrawlItem \<times> CrawlItem list) option" where
  "heappop heap =
     (if heap = [] then None
      else let lastelt = last heap;
               heap' = butlast heap
           in if heap' \<noteq> [] then Some (heap' ! 0, siftup (heap'[0 := lastelt]) 0)
              else Some (lastelt, heap'))"

subsection \<open>heapq keeps the length and the elements\<close>

lemma length_siftdown_from [simp]: "length (siftdown_from x h s p) = length h"
  by (induction x h s p rule: siftdown_from.induct)
     (subst siftdown_from.simps, simp add: Let_def)

lemma length_siftdown [simp]: "length (siftdown h s p) = length h"
  by (simp add: siftdown_def)

lemma length_siftup_loop: "length (fst (siftup_loop h p)) = length h"
  by (induction h p rule: siftup_loop.induct)
     (subst siftup_loop.simps, simp add: Let_def)

lemma length_siftup [simp]: "length (siftup h p) = length h"
  using length_siftup_loop [of h p]
  by (cases "siftup_loop h p") (simp add: siftup_def Let_def)

lemma length_heappush [simp]: "length (heappush h x) = Suc (length h)"
  by (simp add: heappush_def)

lemma length_heappop: "heappop h = Some (x, r) \<Longrightarrow> Suc (length r) = length h"
  by (cases h rule: rev_cases) (auto simp: heappop_def Let_def split: if_splits)

lemma mset_siftdown_from:
  "p < length h \<Longrightarrow> mset (siftdown_from x h s p) = mset (h[p := x])"
proof (induction x h s p rule: siftdown_from.induct)
  case (1 newitem heap startpos pos)
  show ?case
  proof (cases "pos > startpos \<and> item_lt newitem (heap ! ((pos - 1) div 2))")
    case False
    then show ?thesis by (subst siftdown_from.simps) (auto simp: Let_def)
  next
    case True
    define pp where "pp = (pos - 1) div 2"
    have pp: "pp < pos" "pp < length heap" using True 1(2) by (auto simp: pp_def)
    have "mset (siftdown_from newitem heap startpos pos) =
          mset (siftdown_from newitem (heap[pos := heap ! pp]) startpos pp)"
      using True by (subst siftdown_from.simps) (simp add: Let_def pp_def)
    also have "\<dots> = mset ((heap[pos := heap ! pp])[pp := newitem])"
      using 1(1)[OF _ refl refl] True pp by (simp add: pp_def)
    also have "\<dots> = mset (heap[pos := newitem])"
      using mset_swap [of pp "heap[pos := newitem]" pos] pp 1(2)
      by (simp add: list_update_swap)
    finally show ?thesis .
  qed
qed

lemma mset_heappush [simp]: "mset (heappush h x) = add_mset x (mset h)"
  by (simp add: heappush_def siftdown_def mset_siftdown_from)

lemma siftup_loop_hole:
  "p < length h \<Longrightarrow> siftup_loop h p = (h', p') \<Longrightarrow>
     p' < length h \<and> length h' = length h \<and> mset (h'[p' := x]) = mset (h[p := x])"
proof (induction h p arbitrary: h' p' rule: siftup_loop.induct)
  case (1 heap pos)
  show ?case
  proof (cases "2 * pos + 1 < length heap")
    case False
    then have "siftup_loop heap pos = (heap, pos)"
      by (subst siftup_loop.simps) (simp add: Let_def)
    with 1(2,3) show ?thesis by simp
  next
    case True
    define c where "c = (if 2 * pos + 1 + 1 < length heap \<and>
                            \<not> item_lt (heap ! (2 * pos + 1)) (heap ! (2 * pos + 1 + 1))
                         then 2 * pos + 1 + 1 else 2 * pos + 1)"
    have c: "c < length heap" "pos < c" using True by (auto simp: c_def)
    have eq: "siftup_loop heap pos = siftup_loop (heap[pos := heap ! c]) c"
      using True by (subst siftup_loop.simps) (simp add: Let_def c_def)
    have ih: "p' < length (heap[pos := heap ! c]) \<and> length h' = length (heap[pos := heap ! c]) \<and>
              mset (h'[p' := x]) = mset ((heap[pos := heap ! c])[c := x])"
      using 1(1)[OF refl refl True refl refl, where h'=h' and p'=p'] c 1(3) eq True
      by (simp add: c_def)
    have "mset ((heap[pos := heap ! c])[c := x]) = mset (heap[pos := x])"
      using mset_swap [of c "heap[pos := x]" pos] c 1(2)
      by (simp add: list_update_swap)
    with ih show ?thesis by simp
  qed
qed

lemma mset_siftup: "p < length h \<Longrightarrow> mset (siftup h p) = mset h"
proof -
  assume p: "p < length h"
  obtain h' p' where l: "siftup_loop h p = (h', p')" by (cases "siftup_loop h p")
  from siftup_loop_hole [OF p l, of "h ! p"]
  have "p' < length h'" "mset (h'[p' := h ! p]) = mset h" by simp_all
  then show ?thesis
    by (simp add: siftup_def l siftdown_def mset_siftdown_from Let_def)
qed

lemma mset_heappop: "heappop h = Some (x, r) \<Longrightarrow> mset h = add_mset x (mset r)"
proof (cases h rule: rev_cases)
  case Nil
  assume "heappop h = Some (x, r)"
  with Nil show ?thesis by (simp add: heappop_def)
next
  case (snoc ys y)
  assume a: "heappop h = Some (x, r)"
  show ?thesis
  proof (cases "ys = []")
    case True
    with a snoc show ?thesis by (simp add: heappop_def)
  next
    case False
    then have l: "0 < length ys" by simp
    from a snoc False have x: "x = ys ! 0" and r: "r = siftup (ys[0 := y]) 0"
      by (simp_all add: heappop_def)
    have "mset r = mset (ys[0 := y])" using l by (simp add: r mset_siftup)
    also have "\<dots> = add_mset y (mset ys - {#ys ! 0#})" using l by (simp add: mset_update)
    finally show ?thesis using snoc l by (simp add: x)
  qed
qed

lemma heappop_None: "heappop h = None \<longleftrightarrow> h = []"
  by (simp add: heappop_def Let_def)

subsection \<open>heapq keeps the heap order\<close>

text \<open>
  \<open>heap_inv\<close> is the invariant of \<open>heapq\<close>: no item is smaller than its parent, the parent of
  index \<open>i\<close> being \<open>(i - 1) div 2\<close>. While an item is sifted there is a hole in the list, a
  position whose content is about to be overwritten; \<open>hole_inv\<close> is the order among all other
  positions, with the items below the hole no smaller than the item above it.
\<close>

definition heap_inv :: "CrawlItem list \<Rightarrow> bool" where
  "heap_inv h \<longleftrightarrow>
     (\<forall>i. 0 < i \<and> i < length h \<longrightarrow> priority (h ! ((i - 1) div 2)) \<le> priority (h ! i))"

definition hole_inv :: "CrawlItem list \<Rightarrow> nat \<Rightarrow> bool" where
  "hole_inv h pos \<longleftrightarrow>
     (\<forall>i. 0 < i \<and> i < length h \<and> i \<noteq> pos \<and> (i - 1) div 2 \<noteq> pos \<longrightarrow>
          priority (h ! ((i - 1) div 2)) \<le> priority (h ! i)) \<and>
     (0 < pos \<longrightarrow>
        (\<forall>c. 0 < c \<and> c < length h \<and> (c - 1) div 2 = pos \<longrightarrow>
             priority (h ! ((pos - 1) div 2)) \<le> priority (h ! c)))"

definition below_children :: "CrawlItem \<Rightarrow> CrawlItem list \<Rightarrow> nat \<Rightarrow> bool" where
  "below_children x h pos \<longleftrightarrow>
     (\<forall>c. 0 < c \<and> c < length h \<and> (c - 1) div 2 = pos \<longrightarrow> priority x \<le> priority (h ! c))"

lemma parent_less: "0 < i \<Longrightarrow> (i - 1) div 2 < (i::nat)"
  by arith

lemma hole_inv_cong:
  assumes len: "length h' = length h" and same: "\<And>i. i \<noteq> pos \<Longrightarrow> h' ! i = h ! i"
    and inv: "hole_inv h pos"
  shows "hole_inv h' pos"
  unfolding hole_inv_def
proof (intro conjI allI impI)
  fix i assume i: "0 < i \<and> i < length h' \<and> i \<noteq> pos \<and> (i - 1) div 2 \<noteq> pos"
  then have "priority (h ! ((i - 1) div 2)) \<le> priority (h ! i)"
    using inv len unfolding hole_inv_def by simp
  moreover have "h' ! i = h ! i" "h' ! ((i - 1) div 2) = h ! ((i - 1) div 2)"
    using i same by simp_all
  ultimately show "priority (h' ! ((i - 1) div 2)) \<le> priority (h' ! i)" by simp
next
  fix c assume pos: "0 < pos" and c: "0 < c \<and> c < length h' \<and> (c - 1) div 2 = pos"
  then have "priority (h ! ((pos - 1) div 2)) \<le> priority (h ! c)"
    using inv len unfolding hole_inv_def by simp
  moreover have "c \<noteq> pos" using c parent_less [of c] by simp
  moreover have "(pos - 1) div 2 \<noteq> pos" using pos parent_less [of pos] by simp
  ultimately show "priority (h' ! ((pos - 1) div 2)) \<le> priority (h' ! c)"
    using same by simp
qed

lemma hole_inv_update: "hole_inv (h[pos := y]) pos = hole_inv h pos"
proof
  assume "hole_inv (h[pos := y]) pos"
  then show "hole_inv h pos"
    by (rule hole_inv_cong [rotated 2]) simp_all
next
  assume "hole_inv h pos"
  then show "hole_inv (h[pos := y]) pos"
    by (rule hole_inv_cong [rotated 2]) simp_all
qed

lemma below_children_update: "below_children x (h[pos := y]) pos = below_children x h pos"
proof -
  have "\<And>c. 0 < c \<Longrightarrow> (c - 1) div 2 = pos \<Longrightarrow> c \<noteq> pos"
    using parent_less by auto
  then show ?thesis
    unfolding below_children_def by (auto simp: nth_list_update)
qed

lemma fill_hole:
  assumes "pos < length h" "hole_inv h pos" "below_children x h pos"
    and "pos = 0 \<or> priority (h ! ((pos - 1) div 2)) \<le> priority x"
  shows "heap_inv (h[pos := x])"
  unfolding heap_inv_def
proof (intro allI impI)
  fix i assume i: "0 < i \<and> i < length (h[pos := x])"
  then have ne: "(i - 1) div 2 \<noteq> i" using parent_less [of i] by simp
  show "priority (h[pos := x] ! ((i - 1) div 2)) \<le> priority (h[pos := x] ! i)"
  proof (cases "i = pos")
    case True
    with i assms(4) ne show ?thesis by (auto simp: nth_list_update)
  next
    case False
    show ?thesis
    proof (cases "(i - 1) div 2 = pos")
      case True
      with i False assms(3) show ?thesis
        by (auto simp: below_children_def nth_list_update)
    next
      case pf: False
      with i False assms(2) show ?thesis
        by (auto simp: hole_inv_def nth_list_update)
    qed
  qed
qed

lemma siftdown_from_heap:
  "s = 0 \<Longrightarrow> pos < length h \<Longrightarrow> hole_inv h pos \<Longrightarrow> below_children x h pos \<Longrightarrow>
     heap_inv (siftdown_from x h s pos)"
proof (induction x h s pos rule: siftdown_from.induct)
  case (1 x h s pos)
  define pp where "pp = (pos - 1) div 2"
  show ?case
  proof (cases "pos > s \<and> item_lt x (h ! pp)")
    case False
    then have "siftdown_from x h s pos = h[pos := x]"
      by (subst siftdown_from.simps) (auto simp: Let_def pp_def)
    moreover have "pos = 0 \<or> priority (h ! ((pos - 1) div 2)) \<le> priority x"
      using False 1(2) by (auto simp: item_lt_def pp_def)
    ultimately show ?thesis using fill_hole [OF 1(3) 1(4) 1(5)] by simp
  next
    case True
    then have pos: "0 < pos" and lt: "priority x < priority (h ! pp)"
      using 1(2) by (auto simp: item_lt_def)
    have pp: "pp < pos" "pp < length h" using pos 1(3) by (auto simp: pp_def)
    let ?h1 = "h[pos := h ! pp]"
    have eq: "siftdown_from x h s pos = siftdown_from x ?h1 s pp"
      using True by (subst siftdown_from.simps) (simp add: Let_def pp_def)
    have hole: "hole_inv ?h1 pp"
      unfolding hole_inv_def
    proof (intro conjI allI impI)
      fix i assume i: "0 < i \<and> i < length ?h1 \<and> i \<noteq> pp \<and> (i - 1) div 2 \<noteq> pp"
      then have ne: "(i - 1) div 2 \<noteq> i" using parent_less [of i] by simp
      have ipos: "i \<noteq> pos" using i by (auto simp: pp_def)
      show "priority (?h1 ! ((i - 1) div 2)) \<le> priority (?h1 ! i)"
      proof (cases "(i - 1) div 2 = pos")
        case True
        then have "priority (h ! ((pos - 1) div 2)) \<le> priority (h ! i)"
          using 1(4) i pos by (auto simp: hole_inv_def)
        with True i ipos 1(3) show ?thesis by (simp add: pp_def)
      next
        case False
        with i ipos 1(4) show ?thesis by (auto simp: hole_inv_def)
      qed
    next
      fix c assume ppos: "0 < pp" and c: "0 < c \<and> c < length ?h1 \<and> (c - 1) div 2 = pp"
      have gp: "priority (h ! ((pp - 1) div 2)) \<le> priority (h ! pp)"
        using 1(4) ppos pp parent_less [of pp] by (auto simp: hole_inv_def)
      have gpne: "(pp - 1) div 2 \<noteq> pos" using parent_less [of pp] ppos pp by simp
      show "priority (?h1 ! ((pp - 1) div 2)) \<le> priority (?h1 ! c)"
      proof (cases "c = pos")
        case True
        with gp gpne 1(3) show ?thesis by simp
      next
        case False
        have "c \<noteq> pp" using c parent_less [of c] by auto
        then have "priority (h ! pp) \<le> priority (h ! c)"
          using 1(4) c False pp by (auto simp: hole_inv_def)
        with gp gpne False show ?thesis by simp
      qed
    qed
    have below: "below_children x ?h1 pp"
      unfolding below_children_def
    proof (intro allI impI)
      fix c assume c: "0 < c \<and> c < length ?h1 \<and> (c - 1) div 2 = pp"
      show "priority x \<le> priority (?h1 ! c)"
      proof (cases "c = pos")
        case True
        with lt 1(3) show ?thesis by simp
      next
        case False
        have "c \<noteq> pp" using c parent_less [of c] by auto
        then have "priority (h ! pp) \<le> priority (h ! c)"
          using 1(4) c False pp by (auto simp: hole_inv_def)
        with lt False show ?thesis by simp
      qed
    qed
    have "heap_inv (siftdown_from x ?h1 s pp)"
      using 1(1)[OF _ refl refl] True 1(2) pp hole below by (simp add: pp_def)
    with eq show ?thesis by simp
  qed
qed

lemma heap_inv_hole: "heap_inv h \<Longrightarrow> hole_inv h pos"
  unfolding heap_inv_def hole_inv_def
proof (intro conjI allI impI)
  fix i assume "\<forall>i. 0 < i \<and> i < length h \<longrightarrow> priority (h ! ((i - 1) div 2)) \<le> priority (h ! i)"
    and "0 < i \<and> i < length h \<and> i \<noteq> pos \<and> (i - 1) div 2 \<noteq> pos"
  then show "priority (h ! ((i - 1) div 2)) \<le> priority (h ! i)" by simp
next
  fix c assume inv: "\<forall>i. 0 < i \<and> i < length h \<longrightarrow> priority (h ! ((i - 1) div 2)) \<le> priority (h ! i)"
    and pos: "0 < pos" and c: "0 < c \<and> c < length h \<and> (c - 1) div 2 = pos"
  have "pos < length h" using c parent_less [of c] by simp
  then have "priority (h ! ((pos - 1) div 2)) \<le> priority (h ! pos)" using inv pos by simp
  moreover have "priority (h ! pos) \<le> priority (h ! c)" using inv c by auto
  ultimately show "priority (h ! ((pos - 1) div 2)) \<le> priority (h ! c)" by simp
qed

lemma heappush_heap: "heap_inv h \<Longrightarrow> heap_inv (heappush h x)"
proof -
  assume inv: "heap_inv h"
  let ?h = "h @ [x]"
  have hole: "hole_inv ?h (length h)"
    unfolding hole_inv_def
  proof (intro conjI allI impI)
    fix i assume i: "0 < i \<and> i < length ?h \<and> i \<noteq> length h \<and> (i - 1) div 2 \<noteq> length h"
    then have il: "i < length h" by simp
    then have "(i - 1) div 2 < length h" using parent_less [of i] i by simp
    with il inv i show "priority (?h ! ((i - 1) div 2)) \<le> priority (?h ! i)"
      by (simp add: heap_inv_def nth_append)
  next
    fix c assume "0 < length h" and c: "0 < c \<and> c < length ?h \<and> (c - 1) div 2 = length h"
    then have False using parent_less [of c] by simp
    then show "priority (?h ! ((length h - 1) div 2)) \<le> priority (?h ! c)" ..
  qed
  have below: "below_children x ?h (length h)"
    unfolding below_children_def
  proof (intro allI impI)
    fix c assume c: "0 < c \<and> c < length ?h \<and> (c - 1) div 2 = length h"
    then have False using parent_less [of c] by simp
    then show "priority x \<le> priority (?h ! c)" ..
  qed
  show ?thesis
    unfolding heappush_def siftdown_def
    using siftdown_from_heap [OF refl _ hole, of "?h ! length h"] below by simp
qed

lemma siftup_loop_heap:
  "pos < length h \<Longrightarrow> hole_inv h pos \<Longrightarrow> siftup_loop h pos = (h', p') \<Longrightarrow>
     hole_inv h' p' \<and> \<not> 2 * p' + 1 < length h'"
proof (induction h pos arbitrary: h' p' rule: siftup_loop.induct)
  case (1 heap pos)
  show ?case
  proof (cases "2 * pos + 1 < length heap")
    case False
    then have "siftup_loop heap pos = (heap, pos)"
      by (subst siftup_loop.simps) (simp add: Let_def)
    with 1(3,4) False show ?thesis by simp
  next
    case True
    define c where "c = (if 2 * pos + 1 + 1 < length heap \<and>
                            \<not> item_lt (heap ! (2 * pos + 1)) (heap ! (2 * pos + 1 + 1))
                         then 2 * pos + 1 + 1 else 2 * pos + 1)"
    have c: "c < length heap" "pos < c" "0 < c" "(c - 1) div 2 = pos"
      using True by (auto simp: c_def)
    let ?h1 = "heap[pos := heap ! c]"
    have eq: "siftup_loop heap pos = siftup_loop ?h1 c"
      using True by (subst siftup_loop.simps) (simp add: Let_def c_def)
    have small: "priority (heap ! c) \<le> priority (heap ! i)"
      if "0 < i" "i < length heap" "(i - 1) div 2 = pos" for i
    proof -
      have "i = 2 * pos + 1 \<or> i = 2 * pos + 1 + 1" using that by auto
      then show ?thesis using that True by (auto simp: c_def item_lt_def)
    qed
    have hole: "hole_inv ?h1 c"
      unfolding hole_inv_def
    proof (intro conjI allI impI)
      fix i assume i: "0 < i \<and> i < length ?h1 \<and> i \<noteq> c \<and> (i - 1) div 2 \<noteq> c"
      show "priority (?h1 ! ((i - 1) div 2)) \<le> priority (?h1 ! i)"
      proof (cases "i = pos")
        case True
        then have "0 < pos" using i by simp
        then have "priority (heap ! ((pos - 1) div 2)) \<le> priority (heap ! c)"
          using 1(3) c by (auto simp: hole_inv_def)
        moreover have "(pos - 1) div 2 \<noteq> pos" using parent_less [of pos] \<open>0 < pos\<close> by simp
        ultimately show ?thesis using True 1(2) by simp
      next
        case False
        show ?thesis
        proof (cases "(i - 1) div 2 = pos")
          case True
          with small [of i] i False 1(2) show ?thesis by simp
        next
          case pf: False
          with i False 1(3) show ?thesis by (auto simp: hole_inv_def)
        qed
      qed
    next
      fix d assume d: "0 < d \<and> d < length ?h1 \<and> (d - 1) div 2 = c"
      have "d \<noteq> pos" using d c parent_less [of d] by auto
      moreover have "priority (heap ! c) \<le> priority (heap ! d)"
        using 1(3) d c \<open>d \<noteq> pos\<close> by (auto simp: hole_inv_def)
      ultimately show "priority (?h1 ! ((c - 1) div 2)) \<le> priority (?h1 ! d)"
        using c 1(2) by simp
    qed
    have "hole_inv h' p' \<and> \<not> 2 * p' + 1 < length h'"
      using 1(1)[OF refl refl True refl refl, where h'=h' and p'=p'] c hole 1(4) eq
      by (simp add: c_def)
    then show ?thesis .
  qed
qed

lemma siftup_heap: "h \<noteq> [] \<Longrightarrow> hole_inv h 0 \<Longrightarrow> heap_inv (siftup h 0)"
proof -
  assume ne: "h \<noteq> []" and hole: "hole_inv h 0"
  obtain h' p' where l: "siftup_loop h 0 = (h', p')" by (cases "siftup_loop h 0")
  have p0: "0 < length h" using ne by simp
  from siftup_loop_hole [OF p0 l] have len: "p' < length h'" by simp
  from siftup_loop_heap [OF p0 hole l] have h': "hole_inv h' p'" and leaf: "\<not> 2 * p' + 1 < length h'"
    by simp_all
  let ?h2 = "h'[p' := h ! 0]"
  have "hole_inv ?h2 p'" using h' by (simp add: hole_inv_update)
  moreover have "below_children (h ! 0) ?h2 p'"
    unfolding below_children_def
  proof (intro allI impI)
    fix c assume c: "0 < c \<and> c < length ?h2 \<and> (c - 1) div 2 = p'"
    then have "2 * p' + 1 \<le> c" by auto
    with leaf c have False by simp
    then show "priority (h ! 0) \<le> priority (?h2 ! c)" ..
  qed
  ultimately have "heap_inv (siftdown_from (h ! 0) ?h2 0 p')"
    using siftdown_from_heap [OF refl, of p' ?h2 "h ! 0"] len by simp
  then show ?thesis using len by (simp add: siftup_def l siftdown_def Let_def)
qed

lemma heap_root_min: "heap_inv h \<Longrightarrow> i < length h \<Longrightarrow> priority (h ! 0) \<le> priority (h ! i)"
proof (induction i rule: less_induct)
  case (less i)
  show ?case
  proof (cases "i = 0")
    case True
    then show ?thesis by simp
  next
    case False
    then have i: "0 < i" by simp
    have p: "(i - 1) div 2 < i" using parent_less [OF i] .
    have "priority (h ! 0) \<le> priority (h ! ((i - 1) div 2))"
      using less.IH [OF p less.prems(1)] p less.prems(2) by simp
    also have "\<dots> \<le> priority (h ! i)"
      using less.prems i by (simp add: heap_inv_def)
    finally show ?thesis .
  qed
qed

lemma heappop_heap:
  assumes inv: "heap_inv h" and pop: "heappop h = Some (x, r)"
  shows "heap_inv r \<and> (\<forall>y\<in>set h. priority x \<le> priority y)"
proof (cases h rule: rev_cases)
  case Nil
  with pop show ?thesis by (simp add: heappop_def)
next
  case (snoc ys y)
  have root: "\<forall>z\<in>set h. priority (h ! 0) \<le> priority z"
    using heap_root_min [OF inv] by (auto simp: in_set_conv_nth)
  show ?thesis
  proof (cases "ys = []")
    case True
    with pop snoc show ?thesis by (simp add: heappop_def heap_inv_def)
  next
    case False
    from pop snoc False have x: "x = ys ! 0" and r: "r = siftup (ys[0 := y]) 0"
      by (simp_all add: heappop_def)
    have x0: "x = h ! 0" using x snoc False by (simp add: nth_append)
    have ys: "heap_inv ys"
      unfolding heap_inv_def
    proof (intro allI impI)
      fix i assume i: "0 < i \<and> i < length ys"
      then have "(i - 1) div 2 < length ys" using parent_less [of i] by simp
      with i inv [unfolded heap_inv_def, rule_format, of i] snoc
      show "priority (ys ! ((i - 1) div 2)) \<le> priority (ys ! i)"
        by (simp add: nth_append)
    qed
    have "hole_inv (ys[0 := y]) 0"
      using heap_inv_hole [OF ys, of 0] by (simp add: hole_inv_update)
    then have "heap_inv r" using siftup_heap [of "ys[0 := y]"] False by (simp add: r)
    with root x0 show ?thesis by simp
  qed
qed

subsection \<open>CrawlQueue\<close>

text \<open>
  The state of a \<open>CrawlQueue\<close>: the heap, the three sets, the dict of failures and the three
  limits given to the constructor. The lock serialises the methods; each method is
  modelled as one atomic step on the state.
\<close>

record CrawlQueue =
  queue :: "CrawlItem list"
  seen :: "string set"
  in_progress :: "string set"
  completed :: "string set"
  failed :: "string \<rightharpoonup> string"
  max_depth :: int
  max_retries :: int
  max_urls :: int

definition init_queue :: "int \<Rightarrow> int \<Rightarrow> int \<Rightarrow> CrawlQueue" where
  "init_queue md mr mu =
     \<lparr>queue = [], seen = {}, in_progress = {}, completed = {}, failed = Map.empty,
      max_depth = md, max_retries = mr, max_urls = mu\<rparr>"

definition add ::
  "CrawlQueue \<Rightarrow> string \<Rightarrow> CrawlPriority \<Rightarrow> int \<Rightarrow> string option \<Rightarrow>
     (string \<times> string) list option \<Rightarrow> bool \<times> CrawlQueue" where
  "add q u p d r m =
     (if int (card (seen q)) \<ge> max_urls q then (False, q)
      else if d > max_depth q then (False, q)
      else if u \<in> seen q then (False, q)
      else
        (let item = \<lparr>priority = priority_value p, url = u, depth = d, referrer = r,
                     retries = 0, metadata = (case m of None \<Rightarrow> [] | Some kv \<Rightarrow> kv)\<rparr>
         in (True, q\<lparr>seen := insert u (seen q), queue := heappush (queue q) item\<rparr>)))"

definition complete :: "CrawlQueue \<Rightarrow> string \<Rightarrow> CrawlQueue" where
  "complete q u = q\<lparr>in_progress := in_progress q - {u}, completed := insert u (completed q)\<rparr>"

definition release :: "CrawlQueue \<Rightarrow> string \<Rightarrow> CrawlQueue" where
  "release q u = q\<lparr>in_progress := in_progress q - {u}\<rparr>"

definition fail :: "CrawlQueue \<Rightarrow> string \<Rightarrow> string \<Rightarrow> CrawlItem option \<Rightarrow> CrawlQueue" where
  "fail q u err item =
     (let q1 = q\<lparr>in_progress := in_progress q - {u}\<rparr>
      in case item of
           None \<Rightarrow> q1\<lparr>failed := (failed q1)(u \<mapsto> err)\<rparr>
         | Some it \<Rightarrow>
             if retries it < max_retries q1 then
               (let new_item = \<lparr>priority = min (priority it + 1) (priority_value DEFERRED),
                                url = u, depth = depth it, referrer = referrer it,
                                retries = retries it + 1, metadata = metadata it\<rparr>
                in q1\<lparr>queue := heappush (queue q1) new_item\<rparr>)
             else q1\<lparr>failed := (failed q1)(u \<mapsto> err)\<rparr>)"

text \<open>
  \<open>get\<close> pops until it finds an item whose URL is neither completed nor in progress; the
  popped items it skips are gone from the heap. The loop ends because every pop shortens
  the list.
\<close>

function get :: "CrawlQueue \<Rightarrow> CrawlItem option \<times> CrawlQueue" where
  "get q =
     (case heappop (queue q) of
        None \<Rightarrow> (None, q)
      | Some (item, rest) \<Rightarrow>
          if url item \<in> completed q \<or> url item \<in> in_progress q
          then get (q\<lparr>queue := rest\<rparr>)
          else (Some item, q\<lparr>queue := rest, in_progress := insert (url item) (in_progress q)\<rparr>))"
  by pat_completeness auto
termination
  by (relation "measure (\<lambda>q. length (queue q))") (auto dest: length_heappop)

declare get.simps [simp del]

definition is_empty :: "CrawlQueue \<Rightarrow> bool" where
  "is_empty q \<longleftrightarrow> length (queue q) = 0 \<and> card (in_progress q) = 0"

definition clear :: "CrawlQueue \<Rightarrow> CrawlQueue" where
  "clear q = q\<lparr>queue := [], seen := {}, in_progress := {}, completed := {}, failed := Map.empty\<rparr>"

text \<open>
  A crawl session is a sequence of calls of the methods that the fetch tasks share. \<open>clear\<close>
  is not among them: it starts the next, independent session.
\<close>

datatype queue_op =
    Add string CrawlPriority int "string option" "(string \<times> string) list option"
  | Get
  | Complete string
  | Fail string string "CrawlItem option"
  | Release string

fun step :: "CrawlQueue \<Rightarrow> queue_op \<Rightarrow> CrawlQueue" where
  "step q (Add u p d r m) = snd (add q u p d r m)"
| "step q Get = snd (get q)"
| "step q (Complete u) = complete q u"
| "step q (Fail u err item) = fail q u err item"
| "step q (Release u) = release q u"

definition run :: "CrawlQueue \<Rightarrow> queue_op list \<Rightarrow> CrawlQueue" where
  "run q ops = foldl step q ops"

text \<open>
  The discipline the fetch loop follows: an item is reported as failed only while its URL
  is in progress, that is, after the get that returned it and before any other report for
  it. \<open>queue_wf\<close> is what this discipline keeps true of the state: the heap order, no URL
  queued twice, no queued URL in progress, and everything queued or in progress seen.
\<close>

definition queue_wf :: "CrawlQueue \<Rightarrow> bool" where
  "queue_wf q \<longleftrightarrow>
     heap_inv (queue q) \<and> distinct (map url (queue q)) \<and>
     url ` set (queue q) \<inter> in_progress q = {} \<and>
     url ` set (queue q) \<subseteq> seen q \<and> in_progress q \<subseteq> seen q"

fun allowed :: "CrawlQueue \<Rightarrow> queue_op \<Rightarrow> bool" where
  "allowed q (Fail u err item) = (u \<in> in_progress q)"
| "allowed q _ = True"

fun conforming :: "CrawlQueue \<Rightarrow> queue_op list \<Rightarrow> bool" where
  "conforming q [] = True"
| "conforming q (x # xs) = (allowed q x \<and> conforming (step q x) xs)"

section \<open>Properties of the crawl queue\<close>

subsection \<open>add\<close>

lemma get_frame:
  "seen (snd (get q)) = seen q \<and> completed (snd (get q)) = completed q \<and>
   failed (snd (get q)) = failed q \<and> max_depth (snd (get q)) = max_depth q \<and>
   max_retries (snd (get q)) = max_retries q \<and> max_urls (snd (get q)) = max_urls q"
proof (induction q rule: get.induct)
  case (1 q)
  show ?case
  proof (cases "heappop (queue q)")
    case None
    then show ?thesis by (subst (1 2 3 4 5 6) get.simps) simp
  next
    case (Some a)
    obtain item rest where a: "a = (item, rest)" by (cases a)
    show ?thesis
    proof (cases "url item \<in> completed q \<or> url item \<in> in_progress q")
      case True
      then show ?thesis
        using 1 [OF Some [unfolded a] refl True] Some a
        by (subst (1 2 3 4 5 6) get.simps) simp
    next
      case False
      then show ?thesis using Some a
        by (subst (1 2 3 4 5 6) get.simps) simp
    qed
  qed
qed

lemma step_seen_mono: "seen q \<subseteq> seen (step q x)"
  by (cases x) (auto simp: add_def Let_def complete_def fail_def release_def get_frame
                     split: option.splits)

lemma run_seen_mono: "seen q \<subseteq> seen (run q ops)"
  unfolding run_def
proof (induction ops arbitrary: q)
  case Nil
  show ?case by simp
next
  case (Cons x xs)
  have "seen q \<subseteq> seen (step q x)" by (rule step_seen_mono)
  also have "\<dots> \<subseteq> seen (foldl step (step q x) xs)" by (rule Cons.IH)
  finally show ?case by simp
qed

text \<open>
  C3. \<open>add\<close> returns false exactly when \<open>seen\<close> has reached \<open>max_urls\<close>, or the depth is
  above \<open>max_depth\<close>, or the URL is in \<open>seen\<close>; in that case the state is the one it was
  given. Otherwise it returns true, the URL is in \<open>seen\<close>, the new item (with the tier's
  value, no retries) is among the queued items, and the other sets are untouched. After a
  successful \<open>add(u)\<close>, whatever calls of add, get, complete, fail and release follow in the
  session, a later \<open>add(u)\<close> is refused for every tier, depth, referrer and metadata: this
  covers a URL that has moved to \<open>completed\<close>.
\<close>

theorem add_admission:
  "fst (add q u p d r m) =
     (\<not> (max_urls q \<le> int (card (seen q)) \<or> max_depth q < d \<or> u \<in> seen q)) \<and>
   (\<not> fst (add q u p d r m) \<longrightarrow> snd (add q u p d r m) = q) \<and>
   (fst (add q u p d r m) \<longrightarrow>
      seen (snd (add q u p d r m)) = insert u (seen q) \<and>
      mset (queue (snd (add q u p d r m))) =
        add_mset \<lparr>priority = priority_value p, url = u, depth = d, referrer = r, retries = 0,
                  metadata = (case m of None \<Rightarrow> [] | Some kv \<Rightarrow> kv)\<rparr> (mset (queue q)) \<and>
      in_progress (snd (add q u p d r m)) = in_progress q \<and>
      completed (snd (add q u p d r m)) = completed q \<and>
      failed (snd (add q u p d r m)) = failed q) \<and>
   (fst (add q u p d r m) \<longrightarrow>
      \<not> fst (add (run (snd (add q u p d r m)) ops) u p' d' r' m'))"
proof -
  have later: "\<not> fst (add (run (snd (add q u p d r m)) ops) u p' d' r' m')"
    if "fst (add q u p d r m)"
  proof -
    from that have "u \<in> seen (snd (add q u p d r m))"
      by (auto simp: add_def Let_def split: if_splits)
    then have "u \<in> seen (run (snd (add q u p d r m)) ops)"
      using run_seen_mono by blast
    then show ?thesis by (simp add: add_def)
  qed
  show ?thesis
    using later by (auto simp: add_def Let_def)
qed

theorem add_admission_witness:
  "fst (add (init_queue 5 3 1000) ''https://ex.com/a'' HIGH 1 None None) \<and>
   \<not> fst (add (init_queue 5 3 0) ''https://ex.com/a'' HIGH 1 None None) \<and>
   seen (snd (add (init_queue 5 3 1000) ''https://ex.com/a'' HIGH 1 None None)) = {''https://ex.com/a''} \<and>
   \<not> fst (add (run (snd (add (init_queue 5 3 1000) ''https://ex.com/a'' HIGH 1 None None))
                  [Get, Complete ''https://ex.com/a''])
              ''https://ex.com/a'' CRITICAL 0 None None)"
  using add_admission [of "init_queue 5 3 1000" "''https://ex.com/a''" HIGH 1 None None
                          "[Get, Complete ''https://ex.com/a'']" CRITICAL 0 None None]
        add_admission [of "init_queue 5 3 0" "''https://ex.com/a''" HIGH 1 None None
                          "[]" CRITICAL 0 None None]
  by (simp add: init_queue_def)

subsection \<open>get\<close>

lemma heap_inv_Nil [simp]: "heap_inv []"
  by (simp add: heap_inv_def)

lemma get_result:
  "heap_inv (queue q) \<Longrightarrow> get q = (res, q') \<Longrightarrow>
     heap_inv (queue q') \<and> mset (queue q') \<subseteq># mset (queue q) \<and>
     (case res of
        None \<Rightarrow> queue q' = [] \<and> in_progress q' = in_progress q \<and>
                (\<forall>y\<in>set (queue q). url y \<in> completed q \<or> url y \<in> in_progress q)
      | Some item \<Rightarrow>
          item \<in> set (queue q) \<and> url item \<notin> completed q \<and> url item \<notin> in_progress q \<and>
          in_progress q' = insert (url item) (in_progress q) \<and>
          add_mset item (mset (queue q')) \<subseteq># mset (queue q) \<and>
          (\<forall>y\<in>set (queue q'). priority item \<le> priority y) \<and>
          (\<forall>y\<in>set (queue q). url y \<notin> completed q \<and> url y \<notin> in_progress q
                \<longrightarrow> priority item \<le> priority y))"
proof (induction q arbitrary: res q' rule: get.induct)
  case (1 q)
  show ?case
  proof (cases "heappop (queue q)")
    case None
    then have "get q = (None, q)" by (subst get.simps) simp
    moreover have "queue q = []" using None by (simp add: heappop_None)
    ultimately show ?thesis using 1(2,3) by auto
  next
    case (Some a)
    obtain x r where a: "a = (x, r)" by (cases a)
    have pop: "heappop (queue q) = Some (x, r)" using Some a by simp
    have ms: "mset (queue q) = add_mset x (mset r)" using mset_heappop [OF pop] .
    have hr: "heap_inv r" and xmin: "\<forall>y\<in>set (queue q). priority x \<le> priority y"
      using heappop_heap [OF 1(2) pop] by simp_all
    have setq: "set (queue q) = insert x (set r)"
      using ms by (metis set_mset_add_mset_insert set_mset_mset)
    show ?thesis
    proof (cases "url x \<in> completed q \<or> url x \<in> in_progress q")
      case True
      let ?q1 = "q\<lparr>queue := r\<rparr>"
      have eq: "get q = get ?q1" using pop True by (subst get.simps) simp
      have ih: "heap_inv (queue q') \<and> mset (queue q') \<subseteq># mset (queue ?q1) \<and>
        (case res of
           None \<Rightarrow> queue q' = [] \<and> in_progress q' = in_progress ?q1 \<and>
                (\<forall>y\<in>set (queue ?q1). url y \<in> completed ?q1 \<or> url y \<in> in_progress ?q1)
         | Some item \<Rightarrow>
             item \<in> set (queue ?q1) \<and> url item \<notin> completed ?q1 \<and> url item \<notin> in_progress ?q1 \<and>
             in_progress q' = insert (url item) (in_progress ?q1) \<and>
             add_mset item (mset (queue q')) \<subseteq># mset (queue ?q1) \<and>
             (\<forall>y\<in>set (queue q'). priority item \<le> priority y) \<and>
             (\<forall>y\<in>set (queue ?q1). url y \<notin> completed ?q1 \<and> url y \<notin> in_progress ?q1
                   \<longrightarrow> priority item \<le> priority y))"
        using 1(1)[OF pop refl True, of res q'] hr 1(3) eq by simp
      have sub: "mset r \<subseteq># mset (queue q)" using ms by simp
      show ?thesis
      proof (cases res)
        case None
        with ih sub True setq show ?thesis
          by (auto intro: subset_mset.order_trans)
      next
        case (Some item)
        with ih sub True setq show ?thesis
          by (auto intro: subset_mset.order_trans)
      qed
    next
      case False
      then have "get q = (Some x, q\<lparr>queue := r, in_progress := insert (url x) (in_progress q)\<rparr>)"
        using pop by (subst get.simps) simp
      with 1(3) have res: "res = Some x"
        and q': "q' = q\<lparr>queue := r, in_progress := insert (url x) (in_progress q)\<rparr>" by simp_all
      show ?thesis using False hr xmin ms setq by (simp add: res q')
    qed
  qed
qed

lemma step_heap_inv: "heap_inv (queue q) \<Longrightarrow> heap_inv (queue (step q x))"
proof (cases x)
  case Get
  assume "heap_inv (queue q)"
  then show ?thesis using get_result [of q "fst (get q)" "snd (get q)"] Get by simp
qed (auto simp: add_def Let_def complete_def fail_def release_def heappush_heap
          split: option.splits)

lemma run_heap_inv: "heap_inv (queue q) \<Longrightarrow> heap_inv (queue (run q ops))"
  unfolding run_def
  by (induction ops arbitrary: q) (simp_all add: step_heap_inv)

text \<open>
  C1. The claim reads: get returns the queued items in tier order, and two items admitted at
  the same tier in the order A, B come back in the order A, B. The second half fails:
  \<open>CrawlItem\<close> compares by priority alone and \<open>heapq\<close> keeps no insertion counter. With
  \<open>/a\<close>, \<open>/b\<close>, \<open>/c\<close>, \<open>/d\<close> admitted in this order at MEDIUM, the first get returns \<open>/a\<close> and
  the second returns \<open>/c\<close>, ahead of \<open>/b\<close>.
\<close>

theorem get_fifo_counterexample:
  "map_option url (fst (get (run (init_queue 5 3 1000)
      [Add ''/a'' MEDIUM 0 None None, Add ''/b'' MEDIUM 0 None None,
       Add ''/c'' MEDIUM 0 None None, Add ''/d'' MEDIUM 0 None None]))) = Some ''/a'' \<and>
   map_option url (fst (get (run (init_queue 5 3 1000)
      [Add ''/a'' MEDIUM 0 None None, Add ''/b'' MEDIUM 0 None None,
       Add ''/c'' MEDIUM 0 None None, Add ''/d'' MEDIUM 0 None None, Get]))) = Some ''/c''"
  by (simp add: run_def init_queue_def add_def heappush_def siftdown_def siftdown_from.simps
        item_lt_def get.simps heappop_def siftup_def siftup_loop.simps Let_def)

text \<open>
  C1, as the code has it. In every state reached from a fresh queue by add, get, complete,
  fail and release, a get that returns an item returns a queued one whose URL is neither
  completed nor in progress, marks it in progress, and no item that is eligible in the
  same way, nor any item left in the queue, has a smaller priority value: CRITICAL comes
  before HIGH, HIGH before MEDIUM, and so on. A get that returns nothing found no eligible
  item and leaves the queue empty. Nothing is said about the order inside a tier.
\<close>

theorem get_most_urgent:
  "get (run (init_queue md mr mu) ops) = (res, q') \<Longrightarrow>
     (case res of
        None \<Rightarrow>
          queue q' = [] \<and>
          (\<forall>y\<in>set (queue (run (init_queue md mr mu) ops)).
              url y \<in> completed (run (init_queue md mr mu) ops) \<or>
              url y \<in> in_progress (run (init_queue md mr mu) ops))
      | Some item \<Rightarrow>
          item \<in> set (queue (run (init_queue md mr mu) ops)) \<and>
          url item \<notin> completed (run (init_queue md mr mu) ops) \<and>
          url item \<notin> in_progress (run (init_queue md mr mu) ops) \<and>
          in_progress q' = insert (url item) (in_progress (run (init_queue md mr mu) ops)) \<and>
          (\<forall>y\<in>set (queue q'). priority item \<le> priority y) \<and>
          (\<forall>y\<in>set (queue (run (init_queue md mr mu) ops)).
              url y \<notin> completed (run (init_queue md mr mu) ops) \<and>
              url y \<notin> in_progress (run (init_queue md mr mu) ops)
              \<longrightarrow> priority item \<le> priority y))"
proof -
  assume g: "get (run (init_queue md mr mu) ops) = (res, q')"
  have "heap_inv (queue (run (init_queue md mr mu) ops))"
    by (rule run_heap_inv) (simp add: init_queue_def)
  from get_result [OF this g] show ?thesis
    by (cases res) simp_all
qed

theorem get_most_urgent_witness:
  "map_option url (fst (get (run (init_queue 5 3 1000)
      [Add ''/blog/post-1'' MEDIUM 1 None None, Add ''/pricing'' HIGH 1 None None,
       Add ''/'' CRITICAL 0 None None]))) = Some ''/'' \<and>
   map_option url (fst (get (run (init_queue 5 3 1000)
      [Add ''/blog/post-1'' MEDIUM 1 None None, Add ''/pricing'' HIGH 1 None None,
       Add ''/'' CRITICAL 0 None None, Get]))) = Some ''/pricing'' \<and>
   map_option url (fst (get (run (init_queue 5 3 1000)
      [Add ''/blog/post-1'' MEDIUM 1 None None, Add ''/pricing'' HIGH 1 None None,
       Add ''/'' CRITICAL 0 None None, Get, Get]))) = Some ''/blog/post-1''"
  using get_most_urgent [of 5 3 1000
      "[Add ''/blog/post-1'' MEDIUM 1 None None, Add ''/pricing'' HIGH 1 None None,
        Add ''/'' CRITICAL 0 None None]"
      "fst (get (run (init_queue 5 3 1000)
         [Add ''/blog/post-1'' MEDIUM 1 None None, Add ''/pricing'' HIGH 1 None None,
          Add ''/'' CRITICAL 0 None None]))"
      "snd (get (run (init_queue 5 3 1000)
         [Add ''/blog/post-1'' MEDIUM 1 None None, Add ''/pricing'' HIGH 1 None None,
          Add ''/'' CRITICAL 0 None None]))"]
  by (simp add: run_def init_queue_def add_def heappush_def siftdown_def siftdown_from.simps
        item_lt_def get.simps heappop_def siftup_def siftup_loop.simps Let_def)

subsection \<open>fail\<close>

lemma heappush_urls:
  "distinct (map url (heappush h x)) = (url x \<notin> url ` set h \<and> distinct (map url h))"
  "set (heappush h x) = insert x (set h)"
proof -
  have "mset (map url (heappush h x)) = mset (map url (x # h))" by simp
  then have "distinct (map url (heappush h x)) = distinct (map url (x # h))"
    by (rule mset_eq_imp_distinct_iff)
  then show "distinct (map url (heappush h x)) = (url x \<notin> url ` set h \<and> distinct (map url h))"
    by simp
  show "set (heappush h x) = insert x (set h)"
    by (metis mset_heappush set_mset_add_mset_insert set_mset_mset)
qed

lemma distinct_iff_count_le: "distinct xs \<longleftrightarrow> (\<forall>a. count (mset xs) a \<le> 1)"
proof
  assume "distinct xs"
  then show "\<forall>a. count (mset xs) a \<le> 1" by (simp add: distinct_count_atmost_1)
next
  assume le: "\<forall>a. count (mset xs) a \<le> 1"
  show "distinct xs"
    unfolding distinct_count_atmost_1
  proof (intro allI)
    fix a
    show "count (mset xs) a = (if a \<in> set xs then 1 else 0)"
    proof (cases "a \<in> set xs")
      case True
      then have "0 < count (mset xs) a" by simp
      moreover have "count (mset xs) a \<le> 1" using le by (rule spec)
      ultimately have "count (mset xs) a = 1" by linarith
      with True show ?thesis by simp
    next
      case False
      then show ?thesis by (simp add: count_eq_zero_iff)
    qed
  qed
qed

lemma distinct_map_sub:
  assumes "distinct (map f xs)" "mset ys \<subseteq># mset xs"
  shows "distinct (map f ys)"
proof -
  have sub: "image_mset f (mset ys) \<subseteq># image_mset f (mset xs)"
    using assms(2) by (rule image_mset_subseteq_mono)
  have le: "count (mset (map f ys)) a \<le> count (mset (map f xs)) a" for a
    using mset_subset_eq_count [OF sub, of a] by simp
  have all: "\<forall>a. count (mset (map f xs)) a \<le> 1"
    using assms(1) by (rule iffD1 [OF distinct_iff_count_le])
  have "count (mset (map f ys)) a \<le> 1" for a
    using le [of a] all [rule_format, of a] by (rule order_trans)
  then have "\<forall>a. count (mset (map f ys)) a \<le> 1" by (rule allI)
  then show ?thesis by (rule iffD2 [OF distinct_iff_count_le])
qed

lemma distinct_map_sub_add:
  assumes "distinct (map f xs)" "add_mset y (mset ys) \<subseteq># mset xs"
  shows "f y \<notin> f ` set ys"
proof -
  have "mset (y # ys) \<subseteq># mset xs" using assms(2) by simp
  with assms(1) have "distinct (map f (y # ys))" by (rule distinct_map_sub)
  then show ?thesis by simp
qed

lemma disjoint_minus: "A \<inter> P = {} \<Longrightarrow> A \<inter> (P - Q) = {}"
  by auto

lemma disjoint_insert_sub: "A \<inter> P = {} \<Longrightarrow> B \<subseteq> A \<Longrightarrow> x \<notin> B \<Longrightarrow> B \<inter> insert x P = {}"
  by auto

lemma get_wf: "queue_wf q \<Longrightarrow> queue_wf (snd (get q))"
proof -
  assume wf: "queue_wf q"
  obtain res q' where g: "get q = (res, q')" by (cases "get q")
  have r: "heap_inv (queue q')" "mset (queue q') \<subseteq># mset (queue q)"
    using get_result [OF _ g] wf by (simp_all add: queue_wf_def)
  have seen: "seen q' = seen q" using get_frame [of q] g by simp
  have sub: "set (queue q') \<subseteq> set (queue q)"
    using r(2) by (metis set_mset_mono set_mset_mset)
  have dist: "distinct (map url (queue q'))"
    using distinct_map_sub [of url "queue q" "queue q'"] wf r(2) by (simp add: queue_wf_def)
  show ?thesis
  proof (cases res)
    case None
    then have "queue q' = []" "in_progress q' = in_progress q"
      using get_result [OF _ g] wf by (simp_all add: queue_wf_def)
    then show ?thesis using wf g seen by (simp add: queue_wf_def)
  next
    case (Some item)
    then have it: "item \<in> set (queue q)" "in_progress q' = insert (url item) (in_progress q)"
      "add_mset item (mset (queue q')) \<subseteq># mset (queue q)"
      using get_result [OF _ g] wf by (simp_all add: queue_wf_def)
    have notin: "url item \<notin> url ` set (queue q')"
      using distinct_map_sub_add [of url "queue q" item "queue q'"] wf it(3)
      by (simp add: queue_wf_def)
    have urls: "url ` set (queue q') \<subseteq> url ` set (queue q)" using sub by blast
    have w: "url ` set (queue q) \<inter> in_progress q = {}" "url ` set (queue q) \<subseteq> seen q"
      "in_progress q \<subseteq> seen q"
      using wf by (simp_all add: queue_wf_def)
    have a0: "url ` set (queue q') \<inter> insert (url item) (in_progress q) = {}"
      using w(1) urls notin by (rule disjoint_insert_sub)
    have a: "url ` set (queue q') \<inter> in_progress q' = {}"
      using a0 by (simp only: it(2))
    have b0: "url ` set (queue q') \<subseteq> seen q"
      using urls w(2) by (rule subset_trans)
    have b: "url ` set (queue q') \<subseteq> seen q'"
      using b0 by (simp only: seen)
    have "url item \<in> url ` set (queue q)" using it(1) by (rule imageI)
    then have "url item \<in> seen q" using w(2) by (rule rev_subsetD)
    then have c0: "insert (url item) (in_progress q) \<subseteq> seen q"
      using w(3) by simp
    have c: "in_progress q' \<subseteq> seen q'"
      using c0 by (simp only: seen it(2))
    show ?thesis
      using g r(1) dist a b c by (simp add: queue_wf_def)
  qed
qed

lemma url_set_heappush: "url ` set (heappush h x) = insert (url x) (url ` set h)"
  by (simp add: heappush_urls(2))

lemma wf_push:
  assumes wf: "queue_wf q" and u: "url x \<notin> url ` set (queue q)" "url x \<notin> in_progress q"
    and s: "url x \<in> seen q"
  shows "queue_wf (q\<lparr>queue := heappush (queue q) x\<rparr>)"
proof -
  have w: "heap_inv (queue q)" "distinct (map url (queue q))"
    "url ` set (queue q) \<inter> in_progress q = {}" "url ` set (queue q) \<subseteq> seen q"
    "in_progress q \<subseteq> seen q"
    using wf by (simp_all add: queue_wf_def)
  have a: "insert (url x) (url ` set (queue q)) \<inter> in_progress q = {}"
    using w(3) u(2) by simp
  have b: "insert (url x) (url ` set (queue q)) \<subseteq> seen q"
    using w(4) s by simp
  show ?thesis
    using w(1,2,5) u(1) a b
    by (simp add: queue_wf_def heappush_heap heappush_urls(1) url_set_heappush)
qed

lemma wf_remove_in_progress:
  assumes wf: "queue_wf q"
  shows "queue_wf (q\<lparr>in_progress := in_progress q - {u}\<rparr>)"
proof -
  have w: "heap_inv (queue q)" "distinct (map url (queue q))"
    "url ` set (queue q) \<inter> in_progress q = {}" "url ` set (queue q) \<subseteq> seen q"
    "in_progress q \<subseteq> seen q"
    using wf by (simp_all add: queue_wf_def)
  have a: "url ` set (queue q) \<inter> (in_progress q - {u}) = {}"
    using w(3) by (rule disjoint_minus)
  have b: "in_progress q - {u} \<subseteq> seen q"
    using w(5) by auto
  show ?thesis using w(1,2,4) a b by (simp add: queue_wf_def)
qed

lemma add_wf: "queue_wf q \<Longrightarrow> queue_wf (snd (add q u p d r m))"
proof -
  assume wf: "queue_wf q"
  let ?item = "\<lparr>priority = priority_value p, url = u, depth = d, referrer = r,
                 retries = 0, metadata = (case m of None \<Rightarrow> [] | Some kv \<Rightarrow> kv)\<rparr>"
  show ?thesis
  proof (cases "max_urls q \<le> int (card (seen q)) \<or> max_depth q < d \<or> u \<in> seen q")
    case True
    then have "snd (add q u p d r m) = q" by (auto simp: add_def)
    with wf show ?thesis by simp
  next
    case False
    then have eq: "snd (add q u p d r m) =
        (q\<lparr>seen := insert u (seen q)\<rparr>)\<lparr>queue := heappush (queue (q\<lparr>seen := insert u (seen q)\<rparr>)) ?item\<rparr>"
      by (simp add: add_def Let_def)
    have w: "url ` set (queue q) \<subseteq> seen q" "in_progress q \<subseteq> seen q"
      using wf by (simp_all add: queue_wf_def)
    have nq: "u \<notin> url ` set (queue q)" using w(1) False by (meson subsetD)
    have np: "u \<notin> in_progress q" using w(2) False by (meson subsetD)
    have wf1: "queue_wf (q\<lparr>seen := insert u (seen q)\<rparr>)"
      using wf by (simp add: queue_wf_def subset_insertI2)
    show ?thesis
      unfolding eq by (rule wf_push [OF wf1]) (simp_all add: nq np)
  qed
qed

lemma fail_wf: "queue_wf q \<Longrightarrow> u \<in> in_progress q \<Longrightarrow> queue_wf (fail q u err item)"
proof -
  assume wf: "queue_wf q" and u: "u \<in> in_progress q"
  let ?q1 = "q\<lparr>in_progress := in_progress q - {u}\<rparr>"
  have wf1: "queue_wf ?q1" using wf by (rule wf_remove_in_progress)
  have w: "url ` set (queue q) \<inter> in_progress q = {}" "in_progress q \<subseteq> seen q"
    using wf by (simp_all add: queue_wf_def)
  have nq: "u \<notin> url ` set (queue q)" using w(1) u by (meson disjoint_iff)
  have s: "u \<in> seen q" using w(2) u by (meson subsetD)
  have wff: "queue_wf (?q1\<lparr>failed := (failed ?q1)(u \<mapsto> err)\<rparr>)"
    using wf1 by (simp add: queue_wf_def)
  show ?thesis
  proof (cases item)
    case None
    with wff show ?thesis by (simp add: fail_def Let_def)
  next
    case (Some it)
    show ?thesis
    proof (cases "retries it < max_retries q")
      case False
      with wff Some show ?thesis by (simp add: fail_def Let_def)
    next
      case True
      let ?n = "\<lparr>priority = min (priority it + 1) (priority_value DEFERRED),
                  url = u, depth = depth it, referrer = referrer it,
                  retries = retries it + 1, metadata = metadata it\<rparr>"
      have eq: "fail q u err item = ?q1\<lparr>queue := heappush (queue ?q1) ?n\<rparr>"
        using True Some by (simp add: fail_def Let_def)
      show ?thesis
        unfolding eq by (rule wf_push [OF wf1]) (simp_all add: nq s)
    qed
  qed
qed

lemma step_wf: "queue_wf q \<Longrightarrow> allowed q x \<Longrightarrow> queue_wf (step q x)"
proof (cases x)
  case Get
  assume "queue_wf q"
  then show ?thesis using get_wf Get by simp
next
  case (Add u p d r m)
  assume "queue_wf q"
  then show ?thesis using Add by (simp add: add_wf)
next
  case (Complete u)
  assume "queue_wf q"
  then have "queue_wf (q\<lparr>in_progress := in_progress q - {u}\<rparr>)"
    by (rule wf_remove_in_progress)
  then show ?thesis using Complete by (simp add: queue_wf_def complete_def)
next
  case (Release u)
  assume "queue_wf q"
  then have "queue_wf (q\<lparr>in_progress := in_progress q - {u}\<rparr>)"
    by (rule wf_remove_in_progress)
  then show ?thesis using Release by (simp add: release_def)
next
  case (Fail u err item)
  assume "queue_wf q" "allowed q x"
  then show ?thesis using Fail by (simp add: fail_wf)
qed

lemma run_wf: "queue_wf q \<Longrightarrow> conforming q ops \<Longrightarrow> queue_wf (run q ops)"
  unfolding run_def
  by (induction ops arbitrary: q) (simp_all add: step_wf)

lemma init_wf: "queue_wf (init_queue md mr mu)"
  by (simp add: queue_wf_def init_queue_def)

text \<open>
  C2. The claim reads: for every queue and every item that get returned before, fail
  requeues the URL one tier down while retries are left, and otherwise leaves the URL in
  \<open>failed\<close> and in neither the queue nor \<open>in_progress\<close>. The exhausted branch does not touch
  the heap, so the URL is still queued afterwards whenever it was queued before. That
  happens when one item is reported twice: with \<open>max_retries = 1\<close>, \<open>/p\<close> is admitted and
  returned by get, fail is called twice with that item (two retry items are pushed), the
  next get returns the first of them, and failing it puts \<open>/p\<close> into \<open>failed\<close> while the
  second retry item is still in the queue.
\<close>

theorem fail_twice_counterexample:
  "fst (get (run (init_queue 5 1 1000) [Add ''/p'' HIGH 0 None None])) =
     Some \<lparr>priority = 1, url = ''/p'', depth = 0, referrer = None, retries = 0, metadata = []\<rparr> \<and>
   fst (get (run (init_queue 5 1 1000)
     [Add ''/p'' HIGH 0 None None, Get,
      Fail ''/p'' ''timeout''
        (Some \<lparr>priority = 1, url = ''/p'', depth = 0, referrer = None, retries = 0, metadata = []\<rparr>),
      Fail ''/p'' ''timeout''
        (Some \<lparr>priority = 1, url = ''/p'', depth = 0, referrer = None, retries = 0, metadata = []\<rparr>)])) =
     Some \<lparr>priority = 2, url = ''/p'', depth = 0, referrer = None, retries = 1, metadata = []\<rparr> \<and>
   failed (run (init_queue 5 1 1000)
     [Add ''/p'' HIGH 0 None None, Get,
      Fail ''/p'' ''timeout''
        (Some \<lparr>priority = 1, url = ''/p'', depth = 0, referrer = None, retries = 0, metadata = []\<rparr>),
      Fail ''/p'' ''timeout''
        (Some \<lparr>priority = 1, url = ''/p'', depth = 0, referrer = None, retries = 0, metadata = []\<rparr>),
      Get,
      Fail ''/p'' ''refused''
        (Some \<lparr>priority = 2, url = ''/p'', depth = 0, referrer = None, retries = 1, metadata = []\<rparr>)])
     ''/p'' = Some ''refused'' \<and>
   map url (queue (run (init_queue 5 1 1000)
     [Add ''/p'' HIGH 0 None None, Get,
      Fail ''/p'' ''timeout''
        (Some \<lparr>priority = 1, url = ''/p'', depth = 0, referrer = None, retries = 0, metadata = []\<rparr>),
      Fail ''/p'' ''timeout''
        (Some \<lparr>priority = 1, url = ''/p'', depth = 0, referrer = None, retries = 0, metadata = []\<rparr>),
      Get,
      Fail ''/p'' ''refused''
        (Some \<lparr>priority = 2, url = ''/p'', depth = 0, referrer = None, retries = 1, metadata = []\<rparr>)]))
     = [''/p'']"
  by (simp add: run_def init_queue_def add_def fail_def heappush_def siftdown_def
        siftdown_from.simps item_lt_def get.simps heappop_def siftup_def siftup_loop.simps Let_def)

text \<open>
  C2, as the code has it. \<open>fail(url, error, item)\<close> takes the URL out of \<open>in_progress\<close> in
  every case and leaves \<open>seen\<close> and \<open>completed\<close> alone. With \<open>item.retries < max_retries\<close> it
  pushes one new item for the URL, with the retries incremented, the priority one tier
  down and capped at DEFERRED (4), and the depth, referrer and metadata of the old item;
  \<open>failed\<close> is unchanged. Otherwise it records the error under the URL in \<open>failed\<close> and
  leaves the heap as it is. In a state reached from a fresh queue by calls that report a
  failure only for a URL in progress, a URL in progress is not queued, so after the
  exhausted branch it is in \<open>failed\<close> and in neither the queue nor \<open>in_progress\<close>.
\<close>

theorem fail_requeues_or_fails:
  "in_progress (fail q u err (Some it)) = in_progress q - {u} \<and>
   seen (fail q u err (Some it)) = seen q \<and>
   completed (fail q u err (Some it)) = completed q \<and>
   (retries it < max_retries q \<longrightarrow>
      mset (queue (fail q u err (Some it))) =
        add_mset \<lparr>priority = (if priority it < 4 then priority it + 1 else 4), url = u,
                  depth = depth it, referrer = referrer it, retries = retries it + 1,
                  metadata = metadata it\<rparr> (mset (queue q)) \<and>
      failed (fail q u err (Some it)) = failed q) \<and>
   (max_retries q \<le> retries it \<longrightarrow>
      failed (fail q u err (Some it)) = (failed q)(u \<mapsto> err) \<and>
      queue (fail q u err (Some it)) = queue q) \<and>
   (max_retries q \<le> retries it \<and> conforming (init_queue md mr mu) ops \<and>
    q = run (init_queue md mr mu) ops \<and> u \<in> in_progress q \<longrightarrow>
      failed (fail q u err (Some it)) u = Some err \<and>
      u \<notin> url ` set (queue (fail q u err (Some it))) \<and>
      u \<notin> in_progress (fail q u err (Some it)))"
proof -
  have a: "in_progress (fail q u err (Some it)) = in_progress q - {u}"
    "seen (fail q u err (Some it)) = seen q" "completed (fail q u err (Some it)) = completed q"
    by (simp_all add: fail_def Let_def)
  have m: "min (priority it + 1) (priority_value DEFERRED) =
           (if priority it < 4 then priority it + 1 else 4)"
    by simp
  have b: "mset (queue (fail q u err (Some it))) =
        add_mset \<lparr>priority = (if priority it < 4 then priority it + 1 else 4), url = u,
                  depth = depth it, referrer = referrer it, retries = retries it + 1,
                  metadata = metadata it\<rparr> (mset (queue q)) \<and>
      failed (fail q u err (Some it)) = failed q"
    if "retries it < max_retries q"
    using that by (simp add: fail_def Let_def m del: priority_value.simps)
  have c: "failed (fail q u err (Some it)) = (failed q)(u \<mapsto> err) \<and>
      queue (fail q u err (Some it)) = queue q"
    if "max_retries q \<le> retries it"
    using that by (simp add: fail_def Let_def)
  have d: "failed (fail q u err (Some it)) u = Some err \<and>
      u \<notin> url ` set (queue (fail q u err (Some it))) \<and>
      u \<notin> in_progress (fail q u err (Some it))"
    if h: "max_retries q \<le> retries it \<and> conforming (init_queue md mr mu) ops \<and>
           q = run (init_queue md mr mu) ops \<and> u \<in> in_progress q"
  proof -
    have "queue_wf (run (init_queue md mr mu) ops)"
      using h run_wf [OF init_wf, of md mr mu ops] by blast
    then have "queue_wf q" using h by blast
    then have "url ` set (queue q) \<inter> in_progress q = {}" by (simp add: queue_wf_def)
    moreover have "u \<in> in_progress q" using h by blast
    ultimately have nq: "u \<notin> url ` set (queue q)" by (meson disjoint_iff)
    have ex: "max_retries q \<le> retries it" using h by blast
    have f: "failed (fail q u err (Some it)) = (failed q)(u \<mapsto> err)"
      and k: "queue (fail q u err (Some it)) = queue q"
      using c [OF ex] by simp_all
    show ?thesis using nq by (simp add: f k a(1))
  qed
  show ?thesis using a b c d by blast
qed

theorem fail_requeues_or_fails_witness:
  "conforming (init_queue 5 1 1000)
     [Add ''/p'' HIGH 0 None None, Get,
      Fail ''/p'' ''timeout''
        (Some \<lparr>priority = 1, url = ''/p'', depth = 0, referrer = None, retries = 0, metadata = []\<rparr>),
      Get] \<and>
   ''/p'' \<in> in_progress (run (init_queue 5 1 1000)
     [Add ''/p'' HIGH 0 None None, Get,
      Fail ''/p'' ''timeout''
        (Some \<lparr>priority = 1, url = ''/p'', depth = 0, referrer = None, retries = 0, metadata = []\<rparr>),
      Get]) \<and>
   failed (fail (run (init_queue 5 1 1000)
     [Add ''/p'' HIGH 0 None None, Get,
      Fail ''/p'' ''timeout''
        (Some \<lparr>priority = 1, url = ''/p'', depth = 0, referrer = None, retries = 0, metadata = []\<rparr>),
      Get]) ''/p'' ''refused''
     (Some \<lparr>priority = 2, url = ''/p'', depth = 0, referrer = None, retries = 1, metadata = []\<rparr>))
     ''/p'' = Some ''refused'' \<and>
   ''/p'' \<notin> url ` set (queue (fail (run (init_queue 5 1 1000)
     [Add ''/p'' HIGH 0 None None, Get,
      Fail ''/p'' ''timeout''
        (Some \<lparr>priority = 1, url = ''/p'', depth = 0, referrer = None, retries = 0, metadata = []\<rparr>),
      Get]) ''/p'' ''refused''
     (Some \<lparr>priority = 2, url = ''/p'', depth = 0, referrer = None, retries = 1, metadata = []\<rparr>))) \<and>
   queue (fail (run (init_queue 5 1 1000) [Add ''/p'' HIGH 0 None None, Get]) ''/p'' ''timeout''
     (Some \<lparr>priority = 1, url = ''/p'', depth = 0, referrer = None, retries = 0, metadata = []\<rparr>)) =
     [\<lparr>priority = 2, url = ''/p'', depth = 0, referrer = None, retries = 1, metadata = []\<rparr>]"
  using fail_requeues_or_fails [where q = "run (init_queue 5 1 1000)
     [Add ''/p'' HIGH 0 None None, Get,
      Fail ''/p'' ''timeout''
        (Some \<lparr>priority = 1, url = ''/p'', depth = 0, referrer = None, retries = 0, metadata = []\<rparr>),
      Get]" and u = "''/p''" and err = "''refused''"
     and it = "\<lparr>priority = 2, url = ''/p'', depth = 0, referrer = None, retries = 1, metadata = []\<rparr>"
     and md = 5 and mr = 1 and mu = 1000 and ops = "[Add ''/p'' HIGH 0 None None, Get,
      Fail ''/p'' ''timeout''
        (Some \<lparr>priority = 1, url = ''/p'', depth = 0, referrer = None, retries = 0, metadata = []\<rparr>),
      Get]"]
  by (simp add: run_def init_queue_def add_def fail_def heappush_def siftdown_def
        siftdown_from.simps item_lt_def get.simps heappop_def siftup_def siftup_loop.simps Let_def)

subsection \<open>complete\<close>

text \<open>
  C4. The claim reads: for a URL \<open>u\<close> that is not in \<open>in_progress\<close>, \<open>complete(u)\<close> leaves the
  whole state unchanged. The method discards \<open>u\<close> from \<open>in_progress\<close> and then adds it to
  \<open>completed\<close> without looking at whether it was in progress: on a fresh queue,
  \<open>complete("a")\<close> puts \<open>"a"\<close> into \<open>completed\<close>.
\<close>

theorem complete_not_in_progress_counterexample:
  "''a'' \<notin> in_progress (init_queue 5 3 1000) \<and>
   completed (init_queue 5 3 1000) = {} \<and>
   completed (complete (init_queue 5 3 1000) ''a'') = {''a''} \<and>
   complete (init_queue 5 3 1000) ''a'' \<noteq> init_queue 5 3 1000"
proof -
  have "completed (complete (init_queue 5 3 1000) ''a'') \<noteq> completed (init_queue 5 3 1000)"
    by (simp add: complete_def init_queue_def)
  then have "complete (init_queue 5 3 1000) ''a'' \<noteq> init_queue 5 3 1000"
    by metis
  then show ?thesis
    by (simp add: complete_def init_queue_def)
qed

text \<open>
  C4, as the code has it. \<open>complete(u)\<close> never raises. In every state it takes \<open>u\<close> out of
  \<open>in_progress\<close> and puts it into \<open>completed\<close>, and it changes nothing else: the queued
  items, \<open>seen\<close>, \<open>failed\<close> and the limits stay as they were. It leaves the state unchanged
  exactly when \<open>u\<close> is not in progress and is completed already.
\<close>

theorem complete_marks_completed:
  "complete q u = q\<lparr>in_progress := in_progress q - {u}, completed := insert u (completed q)\<rparr> \<and>
   in_progress (complete q u) = in_progress q - {u} \<and>
   completed (complete q u) = insert u (completed q) \<and>
   queue (complete q u) = queue q \<and>
   seen (complete q u) = seen q \<and>
   failed (complete q u) = failed q \<and>
   max_depth (complete q u) = max_depth q \<and>
   max_retries (complete q u) = max_retries q \<and>
   max_urls (complete q u) = max_urls q \<and>
   (complete q u = q) = (u \<notin> in_progress q \<and> u \<in> completed q)"
proof -
  have "(complete q u = q) = (u \<notin> in_progress q \<and> u \<in> completed q)"
  proof
    assume eq: "complete q u = q"
    have "in_progress (complete q u) = in_progress q" "completed (complete q u) = completed q"
      using eq by simp_all
    then show "u \<notin> in_progress q \<and> u \<in> completed q"
      by (auto simp: complete_def)
  next
    assume "u \<notin> in_progress q \<and> u \<in> completed q"
    then have "in_progress q - {u} = in_progress q" "insert u (completed q) = completed q"
      by auto
    then show "complete q u = q"
      by (simp add: complete_def)
  qed
  then show ?thesis
    by (simp add: complete_def)
qed

section \<open>Strings\<close>

text \<open>
  Python strings are modelled as lists of characters and the text handled is ASCII. On
  ASCII, \<open>str.isspace\<close> holds for the six usual whitespace characters and for the four
  separators \<open>0x1C\<close> to \<open>0x1F\<close>; \<open>str.lower\<close> maps \<open>A\<close> to \<open>Z\<close> to \<open>a\<close> to \<open>z\<close>.
\<close>

text \<open>
  An exception of the program is a value: a function that can raise returns a sum, with
  the exception on the left. \<open>Unmodelled\<close> is not an exception of the program: it marks an
  input that the model does not cover.
\<close>

datatype error =
  ValueError | IndexError | TypeError | DivisionByZero | InvalidOperation | Unmodelled

definition is_ascii :: "string \<Rightarrow> bool" where
  "is_ascii s \<longleftrightarrow> list_all (\<lambda>c. (of_char c :: nat) < 128) s"

definition isspace :: "char \<Rightarrow> bool" where
  "isspace c \<longleftrightarrow>
     (9 \<le> (of_char c :: nat) \<and> (of_char c :: nat) \<le> 13) \<or>
     (28 \<le> (of_char c :: nat) \<and> (of_char c :: nat) \<le> 32)"

definition lstrip :: "string \<Rightarrow> string" where
  "lstrip s = dropWhile isspace s"

definition rstrip :: "string \<Rightarrow> string" where
  "rstrip s = rev (dropWhile isspace (rev s))"

definition strip :: "string \<Rightarrow> string" where
  "strip s = rstrip (lstrip s)"

definition lower_char :: "char \<Rightarrow> char" where
  "lower_char c =
     (case map_of (zip ''ABCDEFGHIJKLMNOPQRSTUVWXYZ'' ''abcdefghijklmnopqrstuvwxyz'') c of
        Some l \<Rightarrow> l
      | None \<Rightarrow> c)"

definition lower :: "string \<Rightarrow> string" where
  "lower s = map lower_char s"

text \<open>\<open>s.split(sep)\<close> for a separator of one character: every occurrence splits.\<close>

fun split_acc :: "'a \<Rightarrow> 'a list \<Rightarrow> 'a list \<Rightarrow> 'a list list" where
  "split_acc sep acc [] = [rev acc]"
| "split_acc sep acc (c # cs) =
     (if c = sep then rev acc # split_acc sep [] cs else split_acc sep (c # acc) cs)"

definition split_char :: "'a \<Rightarrow> 'a list \<Rightarrow> 'a list list" where
  "split_char sep s = split_acc sep [] s"

text \<open>\<open>s.split(sep, 1)\<close> when \<open>sep\<close> occurs in \<open>s\<close>: the text before and after the first one.\<close>

definition split_once :: "char \<Rightarrow> string \<Rightarrow> string \<times> string" where
  "split_once sep s = (takeWhile (\<lambda>c. c \<noteq> sep) s, tl (dropWhile (\<lambda>c. c \<noteq> sep) s))"

definition NL :: char where
  "NL = CHR 0x0A"

section \<open>robots.txt (app/services/crawl_utils.py, RobotsParser)\<close>

record 'f RobotsRule =
  user_agent :: string
  allowed :: "string list"
  disallowed :: "string list"
  crawl_delay :: "'f option"
  sitemaps :: "string list"

text \<open>
  One iteration of the loop of \<open>_parse\<close>, on the rule built so far and the list
  \<open>current_agents\<close>. \<open>to_float\<close> stands for Python's \<open>float\<close>, with \<open>None\<close> for ValueError.
  \<open>current_agents\<close> is only ever appended to.
\<close>

definition applies :: "string list \<Rightarrow> bool" where
  "applies current_agents \<longleftrightarrow> ''*'' \<in> set current_agents \<or> ''googlebot'' \<in> set current_agents"

definition parse_line ::
  "(string \<Rightarrow> 'f option) \<Rightarrow> 'f RobotsRule \<times> string list \<Rightarrow> string \<Rightarrow> 'f RobotsRule \<times> string list" where
  "parse_line to_float st line0 =
     (let (rule, current_agents) = st;
          line1 = strip line0;
          line = (if CHR ''#'' \<in> set line1 then strip (hd (split_char (CHR ''#'') line1)) else line1)
      in if line = [] then st
         else if CHR '':'' \<notin> set line then st
         else
           (let (k, v) = split_once (CHR '':'') line;
                key = lower (strip k);
                val = strip v
            in if key = ''user-agent'' then (rule, current_agents @ [lower val])
               else if key = ''disallow'' \<and> applies current_agents then
                 (if val \<noteq> [] then (rule\<lparr>disallowed := disallowed rule @ [val]\<rparr>, current_agents)
                  else st)
               else if key = ''allow'' \<and> applies current_agents then
                 (if val \<noteq> [] then (rule\<lparr>allowed := allowed rule @ [val]\<rparr>, current_agents)
                  else st)
               else if key = ''crawl-delay'' \<and> applies current_agents then
                 (case to_float val of
                    Some d \<Rightarrow> (rule\<lparr>crawl_delay := Some d\<rparr>, current_agents)
                  | None \<Rightarrow> st)
               else if key = ''sitemap'' then
                 (rule\<lparr>sitemaps := sitemaps rule @ [val]\<rparr>, current_agents)
               else st))"

text \<open>
  \<open>_parse\<close>. Outside ASCII \<open>strip\<close> and \<open>lower\<close> follow the Unicode tables (a no-break space
  is stripped, for instance), which \<open>isspace\<close> and \<open>lower\<close> above do not cover; a content with
  such a character is answered by \<open>Unmodelled\<close>.
\<close>

definition parse :: "(string \<Rightarrow> 'f option) \<Rightarrow> string \<Rightarrow> error + 'f RobotsRule" where
  "parse to_float content =
     (if \<not> is_ascii content then Inl Unmodelled
      else Inr (fst (foldl (parse_line to_float)
                  (\<lparr>user_agent = ''*'', allowed = [], disallowed = [], crawl_delay = None,
                    sitemaps = []\<rparr>, [])
                  (split_char NL content))))"

text \<open>
  C7. The claim reads: only directives in blocks for \<open>*\<close> or the crawler's own token are
  collected, and directives in blocks for other agents are never applied. \<open>_parse\<close> tests
  \<open>current_agents\<close> for \<open>*\<close> or \<open>googlebot\<close>, but the list is never emptied when a new block
  starts, so once a block for \<open>*\<close> has been read every later block is applied as well. In
  the file below the rule \<open>Disallow: /\<close> belongs to the block of \<open>BadBot\<close> and ends up in
  the policy; the same block alone, with no block for \<open>*\<close> before it, is left out.
\<close>

theorem parse_applies_later_foreign_block:
  "(\<exists>rule. parse to_float
       (''User-agent: *'' @ [NL] @ ''Disallow: /private'' @ [NL] @ [NL] @
        ''User-agent: BadBot'' @ [NL] @ ''Disallow: /'' @ [NL]) = Inr rule \<and>
     disallowed rule = [''/private'', ''/'']) \<and>
   (\<exists>rule. parse to_float
       (''User-agent: BadBot'' @ [NL] @ ''Disallow: /'' @ [NL]) = Inr rule \<and>
     disallowed rule = [])"
  by (simp add: parse_def parse_line_def split_char_def split_once_def strip_def lstrip_def
        rstrip_def lower_def lower_char_def isspace_def applies_def is_ascii_def NL_def Let_def)

section \<open>URL normalisation (app/services/crawl_utils.py, URLNormalizer)\<close>

subsection \<open>urllib.parse\<close>

text \<open>
  \<open>normalize\<close> is built on \<open>urlparse\<close>, \<open>parse_qs\<close>, \<open>urlencode\<close> and \<open>urlunparse\<close> of the
  standard library. They are written out here for ASCII text. Two things need tables that
  are not part of this development: text outside ASCII (Unicode case mapping, NFKC, UTF-8
  decoding of percent escapes above \<open>0x7F\<close>) and a host in brackets, which \<open>urlsplit\<close>
  hands to the \<open>ipaddress\<close> module. On such an input the model answers \<open>Unmodelled\<close>; it
  is not an exception of the program. \<open>ValueError\<close> is the exception \<open>urlsplit\<close> raises on
  unbalanced brackets.
\<close>

definition isalpha :: "char \<Rightarrow> bool" where
  "isalpha c \<longleftrightarrow>
     (65 \<le> (of_char c :: nat) \<and> (of_char c :: nat) \<le> 90) \<or>
     (97 \<le> (of_char c :: nat) \<and> (of_char c :: nat) \<le> 122)"

definition isdigit :: "char \<Rightarrow> bool" where
  "isdigit c \<longleftrightarrow> 48 \<le> (of_char c :: nat) \<and> (of_char c :: nat) \<le> 57"

definition scheme_char :: "char \<Rightarrow> bool" where
  "scheme_char c \<longleftrightarrow> isalpha c \<or> isdigit c \<or> c \<in> set ''+-.''"

definition uses_params :: "string list" where
  "uses_params = [[], ''ftp'', ''hdl'', ''prospero'', ''http'', ''imap'', ''https'', ''shttp'',
     ''rtsp'', ''rtsps'', ''rtspu'', ''sip'', ''sips'', ''mms'', ''sftp'', ''tel'']"

definition uses_netloc :: "string list" where
  "uses_netloc = [[], ''ftp'', ''http'', ''gopher'', ''nntp'', ''telnet'', ''imap'', ''wais'',
     ''file'', ''mms'', ''https'', ''shttp'', ''snews'', ''prospero'', ''rtsp'', ''rtsps'',
     ''rtspu'', ''rsync'', ''svn'', ''svn+ssh'', ''sftp'', ''nfs'', ''git'', ''git+ssh'', ''ws'',
     ''wss'']"

definition startswith :: "string \<Rightarrow> string \<Rightarrow> bool" where
  "startswith s p \<longleftrightarrow> take (length p) s = p"

definition endswith :: "string \<Rightarrow> string \<Rightarrow> bool" where
  "endswith s p \<longleftrightarrow> length p \<le> length s \<and> drop (length s - length p) s = p"

record SplitResult =
  sr_scheme :: string
  sr_netloc :: string
  sr_path :: string
  sr_query :: string
  sr_fragment :: string

definition urlsplit :: "string \<Rightarrow> error + SplitResult" where
  "urlsplit url0 =
     (let url1 = dropWhile (\<lambda>c. (of_char c :: nat) \<le> 32) url0;
          url2 = filter (\<lambda>c. c \<notin> {CHR 0x09, CHR 0x0D, CHR 0x0A}) url1;
          pre = takeWhile (\<lambda>c. c \<noteq> CHR '':'') url2;
          (sch, url3) =
            (if CHR '':'' \<in> set url2 \<and> pre \<noteq> [] \<and> isalpha (hd pre) \<and> list_all scheme_char pre
             then (lower pre, drop (length pre + 1) url2)
             else ([], url2));
          (nl, url4) =
            (if take 2 url3 = ''//''
             then (takeWhile (\<lambda>c. c \<notin> set ''/?#'') (drop 2 url3),
                   dropWhile (\<lambda>c. c \<notin> set ''/?#'') (drop 2 url3))
             else ([], url3));
          (url5, frag) =
            (if CHR ''#'' \<in> set url4 then split_once (CHR ''#'') url4 else (url4, []));
          (url6, q) =
            (if CHR ''?'' \<in> set url5 then split_once (CHR ''?'') url5 else (url5, []))
      in if \<not> is_ascii url0 then Inl Unmodelled
         else if (CHR ''['' \<in> set nl \<and> CHR '']'' \<notin> set nl) \<or>
                 (CHR '']'' \<in> set nl \<and> CHR ''['' \<notin> set nl) then Inl ValueError
         else if CHR ''['' \<in> set nl \<and> CHR '']'' \<in> set nl then Inl Unmodelled
         else Inr \<lparr>sr_scheme = sch, sr_netloc = nl, sr_path = url6, sr_query = q,
                   sr_fragment = frag\<rparr>)"

text \<open>
  \<open>_splitparams\<close>: the parameters are what follows the first \<open>;\<close> of the last path
  segment.
\<close>

definition last_slash :: "string \<Rightarrow> nat" where
  "last_slash u = length u - length (takeWhile (\<lambda>c. c \<noteq> CHR ''/'') (rev u)) - 1"

definition splitparams :: "string \<Rightarrow> string \<times> string" where
  "splitparams u =
     (if CHR ''/'' \<in> set u then
        (let k = last_slash u in
         if CHR '';'' \<notin> set (drop k u) then (u, [])
         else (let i = k + length (takeWhile (\<lambda>c. c \<noteq> CHR '';'') (drop k u))
               in (take i u, drop (i + 1) u)))
      else (let i = length (takeWhile (\<lambda>c. c \<noteq> CHR '';'') u)
            in (take i u, drop (i + 1) u)))"

record ParseResult =
  scheme :: string
  netloc :: string
  path :: string
  params :: string
  query :: string
  fragment :: string

definition urlparse :: "string \<Rightarrow> error + ParseResult" where
  "urlparse u =
     (case urlsplit u of
        Inl e \<Rightarrow> Inl e
      | Inr sr \<Rightarrow>
          (let (p, ps) = (if sr_scheme sr \<in> set uses_params \<and> CHR '';'' \<in> set (sr_path sr)
                          then splitparams (sr_path sr) else (sr_path sr, []))
           in Inr \<lparr>scheme = sr_scheme sr, netloc = sr_netloc sr, path = p, params = ps,
                    query = sr_query sr, fragment = sr_fragment sr\<rparr>))"

definition urlunsplit :: "string \<Rightarrow> string \<Rightarrow> string \<Rightarrow> string \<Rightarrow> string \<Rightarrow> string" where
  "urlunsplit sch nl u q frag =
     (let url1 = (if nl \<noteq> [] \<or> (sch \<noteq> [] \<and> sch \<in> set uses_netloc) \<or> take 2 u = ''//''
                  then ''//'' @ nl @ (if u \<noteq> [] \<and> take 1 u \<noteq> ''/'' then ''/'' @ u else u)
                  else u);
          url2 = (if sch \<noteq> [] then sch @ '':'' @ url1 else url1);
          url3 = (if q \<noteq> [] then url2 @ ''?'' @ q else url2)
      in if frag \<noteq> [] then url3 @ ''#'' @ frag else url3)"

definition urlunparse ::
  "string \<Rightarrow> string \<Rightarrow> string \<Rightarrow> string \<Rightarrow> string \<Rightarrow> string \<Rightarrow> string" where
  "urlunparse sch nl u ps q frag =
     urlunsplit sch nl (if ps \<noteq> [] then u @ '';'' @ ps else u) q frag"

text \<open>
  Percent escapes. \<open>unquote_plus\<close> turns \<open>+\<close> into a space and then decodes every \<open>%XX\<close>
  with two hexadecimal digits; any other \<open>%\<close> stays. \<open>quote_plus\<close> with no safe characters
  keeps letters, digits and \<open>_.-~\<close>, writes a space as \<open>+\<close> and everything else as \<open>%XX\<close>
  in upper case.
\<close>

definition hexval :: "char \<Rightarrow> nat option" where
  "hexval c = map_of (zip ''0123456789ABCDEFabcdef''
                [0, 1, 2, 3, 4, 5, 6, 7, 8, 9, 10, 11, 12, 13, 14, 15, 10, 11, 12, 13, 14, 15]) c"

fun unquote :: "string \<Rightarrow> error + string" where
  "unquote [] = Inr []"
| "unquote (c # cs) =
     (if c = CHR ''%'' then
        (case cs of
           a # b # rest \<Rightarrow>
             (case (hexval a, hexval b) of
                (Some x, Some y) \<Rightarrow>
                  (if 16 * x + y < 128 then
                     (case unquote rest of
                        Inl e \<Rightarrow> Inl e
                      | Inr r \<Rightarrow> Inr (char_of (16 * x + y) # r))
                   else Inl Unmodelled)
              | _ \<Rightarrow> (case unquote cs of Inl e \<Rightarrow> Inl e | Inr r \<Rightarrow> Inr (c # r)))
         | _ \<Rightarrow> (case unquote cs of Inl e \<Rightarrow> Inl e | Inr r \<Rightarrow> Inr (c # r)))
      else (case unquote cs of Inl e \<Rightarrow> Inl e | Inr r \<Rightarrow> Inr (c # r)))"

definition unquote_plus :: "string \<Rightarrow> error + string" where
  "unquote_plus s = unquote (map (\<lambda>c. if c = CHR ''+'' then CHR '' '' else c) s)"

definition hexdigit :: "nat \<Rightarrow> char" where
  "hexdigit n = ''0123456789ABCDEF'' ! n"

definition always_safe :: "char \<Rightarrow> bool" where
  "always_safe c \<longleftrightarrow> isalpha c \<or> isdigit c \<or> c \<in> set ''_.-~''"

definition quote_plus :: "string \<Rightarrow> string" where
  "quote_plus s =
     concat (map (\<lambda>c. if always_safe c then [c]
                       else if c = CHR '' '' then ''+''
                       else [CHR ''%'', hexdigit ((of_char c :: nat) div 16),
                             hexdigit ((of_char c :: nat) mod 16)]) s)"

text \<open>
  \<open>parse_qs\<close> with its defaults: the fields are separated by \<open>&\<close>, a field without a value
  is dropped, and the values of one name are collected in the order of appearance. The
  dict is an association list in insertion order.
\<close>

fun parse_qsl_fields :: "string list \<Rightarrow> error + (string \<times> string) list" where
  "parse_qsl_fields [] = Inr []"
| "parse_qsl_fields (name_value # fs) =
     (let (n, v) = (if CHR ''='' \<in> set name_value then split_once (CHR ''='') name_value
                    else (name_value, []))
      in if name_value \<noteq> [] \<and> v \<noteq> [] then
           (case unquote_plus n of
              Inl e \<Rightarrow> Inl e
            | Inr n' \<Rightarrow>
                (case unquote_plus v of
                   Inl e \<Rightarrow> Inl e
                 | Inr v' \<Rightarrow>
                     (case parse_qsl_fields fs of
                        Inl e \<Rightarrow> Inl e
                      | Inr r \<Rightarrow> Inr ((n', v') # r))))
         else parse_qsl_fields fs)"

definition parse_qsl :: "string \<Rightarrow> error + (string \<times> string) list" where
  "parse_qsl qs = (if qs = [] then Inr [] else parse_qsl_fields (split_char (CHR ''&'') qs))"

fun dict_append ::
  "(string \<times> string list) list \<Rightarrow> string \<Rightarrow> string \<Rightarrow> (string \<times> string list) list" where
  "dict_append [] n v = [(n, [v])]"
| "dict_append ((k, vs) # d) n v =
     (if k = n then (k, vs @ [v]) # d else (k, vs) # dict_append d n v)"

definition parse_qs :: "string \<Rightarrow> error + (string \<times> string list) list" where
  "parse_qs qs =
     (case parse_qsl qs of
        Inl e \<Rightarrow> Inl e
      | Inr pairs \<Rightarrow> Inr (foldl (\<lambda>d (n, v). dict_append d n v) [] pairs))"

definition urlencode :: "(string \<times> string list) list \<Rightarrow> string" where
  "urlencode items =
     (let l = concat (map (\<lambda>(k, vs). map (\<lambda>v. quote_plus k @ ''='' @ quote_plus v) vs) items)
      in case l of [] \<Rightarrow> [] | x # xs \<Rightarrow> foldl (\<lambda>a b. a @ ''&'' @ b) x xs)"

text \<open>
  \<open>sorted\<close> on the items of a dict: the keys are distinct, so the order is that of the
  keys, compared character by character.
\<close>

fun str_le :: "string \<Rightarrow> string \<Rightarrow> bool" where
  "str_le [] ys = True"
| "str_le (x # xs) [] = False"
| "str_le (x # xs) (y # ys) =
     ((of_char x :: nat) < of_char y \<or> (x = y \<and> str_le xs ys))"

fun insert_item :: "string \<times> 'a \<Rightarrow> (string \<times> 'a) list \<Rightarrow> (string \<times> 'a) list" where
  "insert_item x [] = [x]"
| "insert_item x (y # ys) =
     (if str_le (fst x) (fst y) then x # y # ys else y # insert_item x ys)"

definition sorted_items :: "(string \<times> 'a) list \<Rightarrow> (string \<times> 'a) list" where
  "sorted_items xs = foldr insert_item xs []"

subsection \<open>normalize\<close>

definition STRIP_PARAMS :: "string list" where
  "STRIP_PARAMS = [''utm_source'', ''utm_medium'', ''utm_campaign'', ''utm_term'', ''utm_content'',
     ''fbclid'', ''gclid'', ''msclkid'', ''ref'', ''source'', ''mc_cid'', ''mc_eid'',
     ''sessionid'', ''sid'', ''jsessionid'', ''_ga'', ''_gid'']"

text \<open>
  \<open>normalize(url, base_url)\<close>. \<open>urljoin\<close> is taken as a parameter; it is called only for a
  relative URL when a base is given. \<open>path.rstrip('/')\<close> removes every trailing slash.
\<close>

definition normalize ::
  "(string \<Rightarrow> string \<Rightarrow> string) \<Rightarrow> string \<Rightarrow> string option \<Rightarrow> error + string" where
  "normalize urljoin url0 base_url =
     (let u = (case base_url of
                   Some b \<Rightarrow>
                     if b \<noteq> [] \<and> \<not> (startswith url0 ''http://'' \<or> startswith url0 ''https://'')
                     then urljoin b url0 else url0
                 | None \<Rightarrow> url0)
      in case urlparse u of
           Inl e \<Rightarrow> Inl e
         | Inr parsed \<Rightarrow>
             (let sch = lower (scheme parsed);
                  nl0 = lower (netloc parsed);
                  nl = (if endswith nl0 '':80'' \<and> sch = ''http'' then take (length nl0 - 3) nl0
                        else if endswith nl0 '':443'' \<and> sch = ''https''
                        then take (length nl0 - 4) nl0
                        else nl0);
                  p0 = (if path parsed = [] then ''/'' else path parsed);
                  p = (if p0 \<noteq> ''/'' \<and> endswith p0 ''/''
                       then rev (dropWhile (\<lambda>c. c = CHR ''/'') (rev p0)) else p0)
              in case parse_qs (query parsed) of
                   Inl e \<Rightarrow> Inl e
                 | Inr query_params \<Rightarrow>
                     (let filtered_params =
                            filter (\<lambda>(k, v). lower k \<notin> set STRIP_PARAMS) query_params;
                          q = (if filtered_params \<noteq> []
                               then urlencode (sorted_items filtered_params) else [])
                      in Inr (urlunparse sch nl p [] q []))))"

subsection \<open>Properties of normalize\<close>

text \<open>
  Claim C5 (idempotence of \<open>normalize\<close>) fails. The path \<open>//\<close> is not empty, so it is not
  replaced by \<open>/\<close>; it is not \<open>/\<close> and ends with a slash, so \<open>rstrip\<close> empties it, and the
  result \<open>http://ex.com\<close> has no path. Normalising that result takes the other branch:
  the empty path becomes \<open>/\<close>. So \<open>normalize (normalize u)\<close> is \<open>http://ex.com/\<close> while
  \<open>normalize u\<close> is \<open>http://ex.com\<close>, for \<open>u = http://ex.com//\<close>, with or without a base
  URL function.
\<close>

theorem normalize_not_idempotent:
  "normalize urljoin ''http://ex.com//'' None = Inr ''http://ex.com'' \<and>
   normalize urljoin ''http://ex.com'' None = Inr ''http://ex.com/''"
  by (simp add: normalize_def urlparse_def urlsplit_def urlunparse_def urlunsplit_def
        parse_qs_def parse_qsl_def is_ascii_def isalpha_def isdigit_def scheme_char_def
        uses_params_def uses_netloc_def startswith_def endswith_def lower_def lower_char_def
        split_once_def Let_def)

text \<open>
  Claim C6 (URLs that differ only by tracking parameters or by a trailing slash normalise
  to the same string). The instance of the claim holds: \<open>https://EX.com/a/?utm_source=x\<close>
  and \<open>https://ex.com/a\<close> both give \<open>https://ex.com/a\<close>. The general statement fails on
  \<open>http://ex.com//\<close> and \<open>http://ex.com/\<close>, which differ by one trailing slash: the first
  gives \<open>http://ex.com\<close>, the second \<open>http://ex.com/\<close>.
\<close>

theorem normalize_trailing_slash_differs:
  "normalize urljoin ''https://EX.com/a/?utm_source=x'' None = Inr ''https://ex.com/a'' \<and>
   normalize urljoin ''https://ex.com/a'' None = Inr ''https://ex.com/a'' \<and>
   normalize urljoin ''http://ex.com//'' None = Inr ''http://ex.com'' \<and>
   normalize urljoin ''http://ex.com/'' None = Inr ''http://ex.com/''"
  by (simp add: normalize_def urlparse_def urlsplit_def urlunparse_def urlunsplit_def
        parse_qs_def parse_qsl_def is_ascii_def isalpha_def isdigit_def scheme_char_def
        uses_params_def uses_netloc_def startswith_def endswith_def lower_def lower_char_def
        split_once_def split_char_def unquote_plus_def STRIP_PARAMS_def Let_def)

section \<open>Content fingerprints (app/services/crawl_utils.py, ContentFingerprinter)\<close>

subsection \<open>Unicode text\<close>

text \<open>
  A fingerprinted text is any Python string, so it is modelled as the list of its code
  points. \<open>unicode_space\<close> is the class \<open>\s\<close> of \<open>re\<close> on \<open>str\<close>, which is also what
  \<open>str.strip\<close> and \<open>str.split\<close> take for whitespace: 29 code points. The class \<open>\w\<close> is
  \<open>str.isalnum\<close> or the underscore, and \<open>str.lower\<close> works on the whole string (the
  lower case of a capital sigma depends on its neighbours). On ASCII both are written
  out; outside ASCII they are the tables of the Unicode database, which are taken as the
  parameter \<open>U\<close>, so that every statement below holds whatever these tables are.
\<close>

type_synonym ustring = "nat list"

definition codes :: "string \<Rightarrow> ustring" where
  "codes s = map of_char s"

definition unicode_space :: "nat \<Rightarrow> bool" where
  "unicode_space c \<longleftrightarrow>
     (0x9 \<le> c \<and> c \<le> 0xD) \<or> (0x1C \<le> c \<and> c \<le> 0x20) \<or> c = 0x85 \<or> c = 0xA0 \<or>
     c = 0x1680 \<or> (0x2000 \<le> c \<and> c \<le> 0x200A) \<or> c = 0x2028 \<or> c = 0x2029 \<or>
     c = 0x202F \<or> c = 0x205F \<or> c = 0x3000"

record Unicode =
  unicode_lower :: "ustring \<Rightarrow> ustring"
  unicode_alnum :: "nat \<Rightarrow> bool"

definition ascii_lower :: "nat \<Rightarrow> nat" where
  "ascii_lower c = (if 0x41 \<le> c \<and> c \<le> 0x5A then c + 0x20 else c)"

definition lower_text :: "Unicode \<Rightarrow> ustring \<Rightarrow> ustring" where
  "lower_text U s =
     (if list_all (\<lambda>c. c < 0x80) s then map ascii_lower s else unicode_lower U s)"

definition word :: "Unicode \<Rightarrow> nat \<Rightarrow> bool" where
  "word U c \<longleftrightarrow>
     (if c < 0x80
      then (0x30 \<le> c \<and> c \<le> 0x39) \<or> (0x41 \<le> c \<and> c \<le> 0x5A) \<or> (0x61 \<le> c \<and> c \<le> 0x7A) \<or>
           c = 0x5F
      else unicode_alnum U c)"

definition strip_text :: "ustring \<Rightarrow> ustring" where
  "strip_text s = rev (dropWhile unicode_space (rev (dropWhile unicode_space s)))"

text \<open>
  \<open>re.sub(r'\s+', ' ', text)\<close>: every maximal run of whitespace becomes one space. The
  flag tells that the character before was whitespace, so that its run has been replaced
  already.
\<close>

primrec collapse_ws :: "bool \<Rightarrow> ustring \<Rightarrow> ustring" where
  "collapse_ws prev [] = []"
| "collapse_ws prev (c # cs) =
     (if unicode_space c then (if prev then collapse_ws True cs else 0x20 # collapse_ws True cs)
      else c # collapse_ws False cs)"

text \<open>\<open>s.split()\<close>: the maximal runs of characters that are not whitespace.\<close>

primrec split_ws_acc :: "ustring \<Rightarrow> ustring \<Rightarrow> ustring list" where
  "split_ws_acc acc [] = (if acc = [] then [] else [acc])"
| "split_ws_acc acc (c # cs) =
     (if unicode_space c then (if acc = [] then split_ws_acc [] cs else acc # split_ws_acc [] cs)
      else split_ws_acc (acc @ [c]) cs)"

definition split_ws :: "ustring \<Rightarrow> ustring list" where
  "split_ws s = split_ws_acc [] s"

subsection \<open>generate\<close>

text \<open>
  \<open>_normalize_text\<close>: lower case, then \<open>re.sub(r'\s+', ' ', text)\<close>, then
  \<open>re.sub(r'[^\w\s]', '', text)\<close>, then \<open>strip\<close>.
\<close>

definition normalize_text :: "Unicode \<Rightarrow> ustring \<Rightarrow> ustring" where
  "normalize_text U text0 =
     (let text1 = lower_text U text0;
          text2 = collapse_ws False text1;
          text3 = filter (\<lambda>c. word U c \<or> unicode_space c) text2
      in strip_text text3)"

text \<open>
  \<open>generate\<close>. \<open>hashlib.sha256(s.encode()).hexdigest()\<close> is the parameter \<open>sha256\<close>: nothing
  below depends on which function it is. (\<open>encode\<close> raises on a surrogate only; a
  surrogate is neither \<open>\w\<close> nor \<open>\s\<close>, so none is left in the normalised text.) The
  entries \<open>simhash\<close> and \<open>phrase_hash\<close> of the result are computed from the normalised
  text as well and are left out; they do not enter \<open>full_hash\<close>.
\<close>

record Fingerprint =
  full_hash :: string
  word_count :: nat
  char_count :: nat

definition generate :: "Unicode \<Rightarrow> (ustring \<Rightarrow> string) \<Rightarrow> ustring \<Rightarrow> Fingerprint" where
  "generate U sha256 text0 =
     (let normalized = normalize_text U text0
      in \<lparr>full_hash = sha256 normalized,
          word_count = length (split_ws normalized),
          char_count = length normalized\<rparr>)"

subsection \<open>What the normalised text keeps\<close>

text \<open>
  Every character of the lowered text that is a word character and not whitespace is
  still there in the normalised text, in the same order: the substitutions and \<open>strip\<close>
  touch whitespace and the characters outside \<open>\w\<close> only.
\<close>

lemma unicode_space_32: "unicode_space 0x20"
  by (simp add: unicode_space_def)

lemma filter_collapse_ws:
  "filter (\<lambda>c. P c \<and> \<not> unicode_space c) (collapse_ws p s) =
   filter (\<lambda>c. P c \<and> \<not> unicode_space c) s"
  by (induction s arbitrary: p) (simp_all add: unicode_space_32)

lemma filter_dropWhile_not:
  "filter (\<lambda>c. P c \<and> \<not> Q c) (dropWhile Q s) = filter (\<lambda>c. P c \<and> \<not> Q c) s"
  by (induction s) simp_all

lemma filter_strip_text:
  "filter (\<lambda>c. P c \<and> \<not> unicode_space c) (strip_text s) =
   filter (\<lambda>c. P c \<and> \<not> unicode_space c) s"
proof -
  let ?K = "\<lambda>c. P c \<and> \<not> unicode_space c"
  have "filter ?K (strip_text s) =
      rev (filter ?K (dropWhile unicode_space (rev (dropWhile unicode_space s))))"
    by (simp only: strip_text_def rev_filter)
  also have "\<dots> = rev (filter ?K (rev (dropWhile unicode_space s)))"
    by (simp only: filter_dropWhile_not)
  also have "\<dots> = filter ?K (dropWhile unicode_space s)"
    by (simp only: rev_filter rev_rev_ident)
  also have "\<dots> = filter ?K s"
    by (rule filter_dropWhile_not)
  finally show ?thesis .
qed

lemma filter_word_or_space:
  "filter (\<lambda>c. word U c \<and> \<not> unicode_space c) (filter (\<lambda>c. word U c \<or> unicode_space c) s) =
   filter (\<lambda>c. word U c \<and> \<not> unicode_space c) s"
  by (induction s) auto

lemma normalize_text_keeps_words:
  "filter (\<lambda>c. word U c \<and> \<not> unicode_space c) (normalize_text U t) =
   filter (\<lambda>c. word U c \<and> \<not> unicode_space c) (lower_text U t)"
  by (simp only: normalize_text_def Let_def filter_strip_text filter_word_or_space
        filter_collapse_ws)

subsection \<open>The full hash\<close>

text \<open>
  Claim C8, second half (inputs that differ beyond whitespace have different \<open>full_hash\<close>),
  fails whatever the hash function and the Unicode tables are: \<open>Price: 1.50\<close> and
  \<open>Price: 150\<close> differ in their content, and both are normalised to \<open>price 150\<close>, because
  the punctuation is removed before hashing. Both fingerprints carry the hash of
  \<open>price 150\<close>.
\<close>

theorem full_hash_punctuation_counterexample:
  "\<forall>U sha256.
     generate U sha256 (codes ''Price: 1.50'') =
       \<lparr>full_hash = sha256 (codes ''price 150''), word_count = 2, char_count = 9\<rparr> \<and>
     generate U sha256 (codes ''Price: 150'') =
       \<lparr>full_hash = sha256 (codes ''price 150''), word_count = 2, char_count = 9\<rparr>"
  by (simp add: generate_def normalize_text_def lower_text_def ascii_lower_def word_def
        unicode_space_def strip_text_def split_ws_def codes_def Let_def)

text \<open>
  Claim C8 as the code has it, for every text. \<open>full_hash\<close> is the hash of the normalised
  text and of nothing else, so the same text always gets the same \<open>full_hash\<close>. For two
  texts on whose normalised texts the hash function does not collide, the two values of
  \<open>full_hash\<close> are equal exactly when the normalised texts are equal; and they differ
  whenever the two lowered texts differ in their word characters, that is, whenever an
  edit changes a letter, a digit or an underscore otherwise than by its case. What an
  edit of whitespace or punctuation does is decided by the normalised text alone.
\<close>

theorem full_hash_tracks_normalized_text:
  assumes "sha256 (normalize_text U a) = sha256 (normalize_text U b) \<longrightarrow>
           normalize_text U a = normalize_text U b"
  shows "full_hash (generate U sha256 a) = sha256 (normalize_text U a) \<and>
         (full_hash (generate U sha256 a) = full_hash (generate U sha256 b) \<longleftrightarrow>
            normalize_text U a = normalize_text U b) \<and>
         (filter (\<lambda>c. word U c \<and> \<not> unicode_space c) (lower_text U a) \<noteq>
            filter (\<lambda>c. word U c \<and> \<not> unicode_space c) (lower_text U b) \<longrightarrow>
          full_hash (generate U sha256 a) \<noteq> full_hash (generate U sha256 b))"
proof (intro conjI impI)
  show "full_hash (generate U sha256 a) = sha256 (normalize_text U a)"
    by (simp add: generate_def Let_def)
next
  from assms show "full_hash (generate U sha256 a) = full_hash (generate U sha256 b) \<longleftrightarrow>
      normalize_text U a = normalize_text U b"
    by (auto simp add: generate_def Let_def)
next
  assume d: "filter (\<lambda>c. word U c \<and> \<not> unicode_space c) (lower_text U a) \<noteq>
      filter (\<lambda>c. word U c \<and> \<not> unicode_space c) (lower_text U b)"
  have "normalize_text U a \<noteq> normalize_text U b"
  proof
    assume "normalize_text U a = normalize_text U b"
    then have "filter (\<lambda>c. word U c \<and> \<not> unicode_space c) (normalize_text U a) =
        filter (\<lambda>c. word U c \<and> \<not> unicode_space c) (normalize_text U b)"
      by (rule arg_cong)
    with d show False
      by (simp only: normalize_text_keeps_words)
  qed
  with assms show "full_hash (generate U sha256 a) \<noteq> full_hash (generate U sha256 b)"
    by (auto simp add: generate_def Let_def)
qed

theorem full_hash_tracks_normalized_text_witness:
  "normalize_text \<lparr>unicode_lower = (\<lambda>s. s), unicode_alnum = (\<lambda>c. False)\<rparr>
     (codes ''Price  150!'') = codes ''price 150'' \<and>
   normalize_text \<lparr>unicode_lower = (\<lambda>s. s), unicode_alnum = (\<lambda>c. False)\<rparr>
     (codes ''price 160'') = codes ''price 160'' \<and>
   full_hash (generate \<lparr>unicode_lower = (\<lambda>s. s), unicode_alnum = (\<lambda>c. False)\<rparr>
                (\<lambda>s. if s = codes ''price 150'' then ''a'' else ''b'') (codes ''Price  150!'')) \<noteq>
   full_hash (generate \<lparr>unicode_lower = (\<lambda>s. s), unicode_alnum = (\<lambda>c. False)\<rparr>
                (\<lambda>s. if s = codes ''price 150'' then ''a'' else ''b'') (codes ''price 160''))"
proof -
  let ?U = "\<lparr>unicode_lower = (\<lambda>s. s), unicode_alnum = (\<lambda>c. False)\<rparr>"
  let ?h = "\<lambda>s. if s = codes ''price 150'' then ''a'' else ''b''"
  have a: "normalize_text ?U (codes ''Price  150!'') = codes ''price 150''"
    by (simp add: normalize_text_def lower_text_def ascii_lower_def word_def
          unicode_space_def strip_text_def codes_def Let_def)
  have b: "normalize_text ?U (codes ''price 160'') = codes ''price 160''"
    by (simp add: normalize_text_def lower_text_def ascii_lower_def word_def
          unicode_space_def strip_text_def codes_def Let_def)
  have la: "lower_text ?U (codes ''Price  150!'') = codes ''price  150!''"
    by (simp add: lower_text_def ascii_lower_def codes_def)
  have lb: "lower_text ?U (codes ''price 160'') = codes ''price 160''"
    by (simp add: lower_text_def ascii_lower_def codes_def)
  have h: "?h (normalize_text ?U (codes ''Price  150!'')) =
      ?h (normalize_text ?U (codes ''price 160'')) \<longrightarrow>
      normalize_text ?U (codes ''Price  150!'') = normalize_text ?U (codes ''price 160'')"
    by (simp only: a b) (simp add: codes_def)
  have d: "filter (\<lambda>c. word ?U c \<and> \<not> unicode_space c) (lower_text ?U (codes ''Price  150!'')) \<noteq>
      filter (\<lambda>c. word ?U c \<and> \<not> unicode_space c) (lower_text ?U (codes ''price 160''))"
    by (simp only: la lb) (simp add: word_def unicode_space_def codes_def)
  from full_hash_tracks_normalized_text [OF h] d a b show ?thesis
    by blast
qed

section \<open>Prices (app/services/price_monitor.py, PriceMonitor)\<close>

subsection \<open>Texts and decimals\<close>

text \<open>
  The texts of a page are lists of code points, as above. The currency symbols of
  \<open>normalize_price\<close> are the dollar, euro, pound, yen and rupee signs.
\<close>

definition currency_symbol :: "nat \<Rightarrow> bool" where
  "currency_symbol c \<longleftrightarrow> c = 0x24 \<or> c = 0x20AC \<or> c = 0xA3 \<or> c = 0xA5 \<or> c = 0x20B9"

definition comma :: nat where
  "comma = 0x2C"

definition dot :: nat where
  "dot = 0x2E"

text \<open>\<open>s.replace(old, new)\<close> for one character \<open>old\<close>.\<close>

definition replace_char :: "nat \<Rightarrow> ustring \<Rightarrow> ustring \<Rightarrow> ustring" where
  "replace_char old new s = concat (map (\<lambda>c. if c = old then new else [c]) s)"

text \<open>\<open>s.rindex(c)\<close>: the last position of \<open>c\<close>, and \<open>ValueError\<close> when there is none.\<close>

definition rindex :: "ustring \<Rightarrow> nat \<Rightarrow> error + nat" where
  "rindex s c =
     (if c \<in> set s then Inr (length s - 1 - length (takeWhile (\<lambda>x. x \<noteq> c) (rev s)))
      else Inl ValueError)"

text \<open>\<open>parts[-1]\<close>: the last item, and \<open>IndexError\<close> on the empty list.\<close>

definition last_item :: "'a list \<Rightarrow> error + 'a" where
  "last_item parts = (if parts = [] then Inl IndexError else Inr (last parts))"

text \<open>\<open>sub in s\<close> on texts.\<close>

fun contains :: "'a list \<Rightarrow> 'a list \<Rightarrow> bool" where
  "contains sub [] \<longleftrightarrow> sub = []"
| "contains sub (c # cs) \<longleftrightarrow> take (length sub) (c # cs) = sub \<or> contains sub cs"

text \<open>
  A \<open>Decimal\<close> is a number, an infinity with its sign (\<open>True\<close> for the positive one) or a
  NaN. An order comparison with a NaN raises \<open>InvalidOperation\<close>.
\<close>

datatype Decimal = Finite rat | Infinite bool | NaN

fun dec_gt :: "Decimal \<Rightarrow> Decimal \<Rightarrow> error + bool" where
  "dec_gt NaN b = Inl InvalidOperation"
| "dec_gt (Finite x) NaN = Inl InvalidOperation"
| "dec_gt (Infinite s) NaN = Inl InvalidOperation"
| "dec_gt (Finite x) (Finite y) = Inr (y < x)"
| "dec_gt (Finite x) (Infinite t) = Inr (\<not> t)"
| "dec_gt (Infinite s) (Finite y) = Inr s"
| "dec_gt (Infinite s) (Infinite t) = Inr (s \<and> \<not> t)"

subsection \<open>normalize_price\<close>

text \<open>
  \<open>cleaned\<close> is the text that \<open>normalize_price\<close> hands to the constructor \<open>Decimal\<close>: the
  price without currency symbols and whitespace, with the decimal comma or the thousands
  separators rewritten. The calls of \<open>rindex\<close> and the subscript \<open>parts[-1]\<close> are the
  places where it could raise.
\<close>

definition cleaned :: "ustring \<Rightarrow> error + ustring" where
  "cleaned price_str =
     (let c0 = filter (\<lambda>c. \<not> (currency_symbol c \<or> unicode_space c)) price_str
      in if comma \<in> set c0 \<and> dot \<in> set c0 then
           (case rindex c0 comma of
              Inl e \<Rightarrow> Inl e
            | Inr i \<Rightarrow>
                (case rindex c0 dot of
                   Inl e \<Rightarrow> Inl e
                 | Inr j \<Rightarrow>
                     if i > j then Inr (replace_char comma [dot] (replace_char dot [] c0))
                     else Inr (replace_char comma [] c0)))
         else if comma \<in> set c0 then
           (case last_item (split_char comma c0) of
              Inl e \<Rightarrow> Inl e
            | Inr l \<Rightarrow>
                if length l = 2 then Inr (replace_char comma [dot] c0)
                else Inr (replace_char comma [] c0))
         else Inr c0)"

text \<open>
  The constructor \<open>Decimal\<close> on a text is the parameter \<open>to_decimal\<close>; it answers \<open>None\<close>
  when the constructor raises, and then the bare \<open>except\<close> gives \<open>Decimal(0)\<close>.
\<close>

definition normalize_price :: "(ustring \<Rightarrow> Decimal option) \<Rightarrow> ustring \<Rightarrow> error + Decimal" where
  "normalize_price to_decimal price_str =
     (case cleaned price_str of
        Inl e \<Rightarrow> Inl e
      | Inr c \<Rightarrow> (case to_decimal c of Some d \<Rightarrow> Inr d | None \<Rightarrow> Inr (Finite 0)))"

subsection \<open>extract_prices\<close>

text \<open>
  The page and the regular expressions are library objects. \<open>Page\<close> collects what
  \<open>extract_prices\<close> asks of them, on elements of any type \<open>'e\<close>:
  \<open>select html s\<close> is \<open>BeautifulSoup(html, "lxml").select(s)\<close>,
  \<open>get_text_strip\<close> and \<open>get_text\<close> are \<open>get_text(strip=True)\<close> and \<open>get_text()\<close>,
  \<open>find_strike\<close> is \<open>find(['s', 'strike', 'del'])\<close> or else the search for a class
  \<open>original|was|old\<close>, \<open>find_heading\<close> and \<open>find_title\<close> are the two searches of
  \<open>_find_product_name\<close>, \<open>findall i t\<close> is \<open>re.findall(PRICE_PATTERNS[i], t, re.IGNORECASE)\<close>,
  \<open>search_discount i t\<close> is the number in the first match of \<open>DISCOUNT_PATTERNS[i]\<close> in
  \<open>t\<close>, \<open>decimal\<close> is the constructor \<open>Decimal\<close> as above, and
  \<open>discount_of price original\<close> is the floating point expression
  \<open>int((1 - float(price) / float(original)) * 100)\<close>. A pattern is named by its position
  in its list.
\<close>

record 'e Page =
  select :: "ustring \<Rightarrow> string \<Rightarrow> 'e list"
  get_text_strip :: "'e \<Rightarrow> ustring"
  get_text :: "'e \<Rightarrow> ustring"
  parent :: "'e \<Rightarrow> 'e option"
  find_strike :: "'e \<Rightarrow> 'e option"
  find_heading :: "'e \<Rightarrow> 'e option"
  find_title :: "'e \<Rightarrow> 'e option"
  findall :: "nat \<Rightarrow> ustring \<Rightarrow> ustring list"
  search_discount :: "nat \<Rightarrow> ustring \<Rightarrow> int option"
  decimal :: "ustring \<Rightarrow> Decimal option"
  discount_of :: "Decimal \<Rightarrow> Decimal \<Rightarrow> int"

definition PRICE_PATTERNS :: "nat list" where
  "PRICE_PATTERNS = [0, 1, 2, 3, 4, 5, 6, 7]"

definition DISCOUNT_PATTERNS :: "nat list" where
  "DISCOUNT_PATTERNS = [0, 1, 2, 3]"

definition CURRENCY_PATTERNS :: "(ustring \<times> string) list" where
  "CURRENCY_PATTERNS =
     [([0x24], ''USD''), ([0x20AC], ''EUR''), ([0xA3], ''GBP''), ([0xA5], ''JPY''),
      ([0x20B9], ''INR''), (codes ''USD'', ''USD''), (codes ''EUR'', ''EUR''),
      (codes ''GBP'', ''GBP'')]"

definition pricing_selectors :: "string list" where
  \<open>pricing_selectors =
     [''[class*="price"]'', ''[class*="Price"]'', ''[class*="cost"]'', ''[class*="amount"]'',
      ''[data-price]'', ''[itemprop="price"]'', ''[class*="plan"]'', ''[class*="Plan"]'',
      ''[class*="tier"]'', ''[class*="Tier"]'', ''[class*="pricing"]'', ''[class*="Pricing"]'',
      ''[class*="subscription"]'', ''[class*="package"]'', ''[class*="fee"]'',
      ''[class*="rate"]'']\<close>

definition extract_currency :: "ustring \<Rightarrow> string" where
  "extract_currency t =
     (case find (\<lambda>(symbol, code). contains symbol t) CURRENCY_PATTERNS of
        Some (symbol, code) \<Rightarrow> code
      | None \<Rightarrow> ''USD'')"

text \<open>\<open>_find_product_name\<close>: up to five levels above the element.\<close>

fun find_product_name_from :: "'e Page \<Rightarrow> nat \<Rightarrow> 'e option \<Rightarrow> ustring option" where
  "find_product_name_from page 0 current = None"
| "find_product_name_from page (Suc n) None = None"
| "find_product_name_from page (Suc n) (Some cur) =
     (case find_heading page cur of
        Some heading \<Rightarrow> Some (take 200 (get_text_strip page heading))
      | None \<Rightarrow>
          (case find_title page cur of
             Some title \<Rightarrow>
               (let t = get_text_strip page title
                in if 2 < length t \<and> length t < 200 then Some t
                   else find_product_name_from page n (parent page cur))
           | None \<Rightarrow> find_product_name_from page n (parent page cur)))"

definition find_product_name :: "'e Page \<Rightarrow> 'e \<Rightarrow> ustring option" where
  "find_product_name page price_element = find_product_name_from page 5 (parent page price_element)"

record PriceData =
  product_name :: ustring
  price :: Decimal
  original_price :: "Decimal option"
  currency :: string
  is_on_sale :: bool
  discount_percent :: "int option"
  source_url :: ustring

text \<open>
  The original price and the discount of a price found in \<open>element\<close>: the first match of
  the first matching pattern in the struck-out text beside it, and the first discount
  pattern found in the text of the parent.
\<close>

fun first_match :: "'e Page \<Rightarrow> ustring \<Rightarrow> nat list \<Rightarrow> ustring option" where
  "first_match page t [] = None"
| "first_match page t (p # ps) =
     (case findall page p t of [] \<Rightarrow> first_match page t ps | m # ms \<Rightarrow> Some m)"

fun first_discount :: "'e Page \<Rightarrow> ustring \<Rightarrow> nat list \<Rightarrow> int option" where
  "first_discount page t [] = None"
| "first_discount page t (dp # dps) =
     (case search_discount page dp t of Some d \<Rightarrow> Some d | None \<Rightarrow> first_discount page t dps)"

definition struck_price ::
  "'e Page \<Rightarrow> 'e \<Rightarrow> Decimal \<Rightarrow> error + Decimal option \<times> int option \<times> bool" where
  "struck_price page par p =
     (case find_strike page par of
        None \<Rightarrow> Inr (None, None, False)
      | Some strike \<Rightarrow>
          (case first_match page (get_text page strike) PRICE_PATTERNS of
             None \<Rightarrow> Inr (None, None, False)
           | Some m \<Rightarrow>
               (case normalize_price (decimal page) m of
                  Inl e \<Rightarrow> Inl e
                | Inr original \<Rightarrow>
                    (case dec_gt original p of
                       Inl e \<Rightarrow> Inl e
                     | Inr higher \<Rightarrow>
                         if higher then Inr (Some original, Some (discount_of page p original), True)
                         else Inr (Some original, None, False)))))"

definition sale_info ::
  "'e Page \<Rightarrow> 'e \<Rightarrow> Decimal \<Rightarrow> error + Decimal option \<times> int option \<times> bool" where
  "sale_info page element p =
     (case parent page element of
        None \<Rightarrow> Inr (None, None, False)
      | Some par \<Rightarrow>
          (case struck_price page par p of
             Inl e \<Rightarrow> Inl e
           | Inr (original, discount, on_sale) \<Rightarrow>
               (case first_discount page (get_text page par) DISCOUNT_PATTERNS of
                  Some d \<Rightarrow> Inr (original, Some d, True)
                | None \<Rightarrow> Inr (original, discount, on_sale))))"

text \<open>
  The four nested loops of \<open>extract_prices\<close>, from the innermost: over the matches of a
  pattern, over the patterns, over the elements of a selector (with the set
  \<open>found_elements\<close> of the texts seen), and over the selectors. A price is recorded
  under the guard \<open>price > 0\<close>; \<open>price_data\<close> is the record appended.
\<close>

definition price_data ::
  "'e Page \<Rightarrow> ustring \<Rightarrow> 'e \<Rightarrow> ustring \<Rightarrow> Decimal \<Rightarrow> Decimal option \<times> int option \<times> bool \<Rightarrow>
   PriceData" where
  "price_data page u element t p sale =
     (case sale of (original, discount, on_sale) \<Rightarrow>
        \<lparr>product_name =
           (case find_product_name page element of
              Some n \<Rightarrow> if n = [] then codes ''Product on '' @ u else n
            | None \<Rightarrow> codes ''Product on '' @ u),
         price = p,
         original_price = original,
         currency = extract_currency t,
         is_on_sale = on_sale,
         discount_percent = discount,
         source_url = u\<rparr>)"

fun matches_loop ::
  "'e Page \<Rightarrow> ustring \<Rightarrow> 'e \<Rightarrow> ustring \<Rightarrow> PriceData list \<Rightarrow> ustring list \<Rightarrow>
   error + PriceData list" where
  "matches_loop page u element t prices [] = Inr prices"
| "matches_loop page u element t prices (m # ms) =
     (case normalize_price (decimal page) m of
        Inl e \<Rightarrow> Inl e
      | Inr p \<Rightarrow>
          (case dec_gt p (Finite 0) of
             Inl e \<Rightarrow> Inl e
           | Inr pos \<Rightarrow>
               if pos then
                 (case sale_info page element p of
                    Inl e \<Rightarrow> Inl e
                  | Inr sale \<Rightarrow>
                      matches_loop page u element t
                        (prices @ [price_data page u element t p sale]) ms)
               else matches_loop page u element t prices ms))"

fun patterns_loop ::
  "'e Page \<Rightarrow> ustring \<Rightarrow> 'e \<Rightarrow> ustring \<Rightarrow> PriceData list \<Rightarrow> nat list \<Rightarrow>
   error + PriceData list" where
  "patterns_loop page u element t prices [] = Inr prices"
| "patterns_loop page u element t prices (pattern # ps) =
     (case matches_loop page u element t prices (findall page pattern t) of
        Inl e \<Rightarrow> Inl e
      | Inr prices' \<Rightarrow> patterns_loop page u element t prices' ps)"

fun elements_loop ::
  "'e Page \<Rightarrow> ustring \<Rightarrow> ustring set \<times> PriceData list \<Rightarrow> 'e list \<Rightarrow>
   error + ustring set \<times> PriceData list" where
  "elements_loop page u (found_elements, prices) [] = Inr (found_elements, prices)"
| "elements_loop page u (found_elements, prices) (element # es) =
     (let t = get_text_strip page element
      in if t \<in> found_elements then elements_loop page u (found_elements, prices) es
         else (case patterns_loop page u element t prices PRICE_PATTERNS of
                 Inl e \<Rightarrow> Inl e
               | Inr prices' \<Rightarrow> elements_loop page u (insert t found_elements, prices') es))"

fun selectors_loop ::
  "'e Page \<Rightarrow> ustring \<Rightarrow> ustring \<Rightarrow> ustring set \<times> PriceData list \<Rightarrow> string list \<Rightarrow>
   error + ustring set \<times> PriceData list" where
  "selectors_loop page html u st [] = Inr st"
| "selectors_loop page html u st (selector # ss) =
     (case elements_loop page u st (select page html selector) of
        Inl e \<Rightarrow> Inl e
      | Inr st' \<Rightarrow> selectors_loop page html u st' ss)"

definition extract_prices :: "'e Page \<Rightarrow> ustring \<Rightarrow> ustring \<Rightarrow> error + PriceData list" where
  "extract_prices page html u =
     (case selectors_loop page html u ({}, []) pricing_selectors of
        Inl e \<Rightarrow> Inl e
      | Inr (found_elements, prices) \<Rightarrow> Inr prices)"

subsection \<open>Price parsing returns, and recorded prices are positive\<close>

lemma split_acc_not_Nil: "split_acc sep acc s \<noteq> []"
  by (induction s arbitrary: acc) simp_all

lemma cleaned_returns: "\<exists>c. cleaned price_str = Inr c"
  by (simp add: cleaned_def rindex_def last_item_def split_char_def split_acc_not_Nil Let_def)

definition positive_price :: "PriceData \<Rightarrow> bool" where
  "positive_price r \<longleftrightarrow> dec_gt (price r) (Finite 0) = Inr True"

lemma matches_loop_positive:
  "matches_loop page u element t prices ms = Inr prices' \<Longrightarrow>
   list_all positive_price prices \<Longrightarrow> list_all positive_price prices'"
proof (induction ms arbitrary: prices)
  case Nil
  then show ?case by simp
next
  case (Cons m ms)
  from Cons.prems(1) obtain p b where
    p: "normalize_price (decimal page) m = Inr p" and
    pos: "dec_gt p (Finite 0) = Inr b"
    by (auto split: sum.splits)
  show ?case
  proof (cases b)
    case False
    with Cons.prems p pos have "matches_loop page u element t prices ms = Inr prices'"
      by simp
    from this Cons.prems(2) show ?thesis
      by (rule Cons.IH)
  next
    case True
    with Cons.prems(1) p pos obtain sale where
      rest: "matches_loop page u element t (prices @ [price_data page u element t p sale]) ms =
          Inr prices'"
      by (auto split: sum.splits)
    from pos True have "positive_price (price_data page u element t p sale)"
      by (simp add: positive_price_def price_data_def split: prod.splits)
    with Cons.prems(2)
    have "list_all positive_price (prices @ [price_data page u element t p sale])"
      by simp
    with rest show ?thesis
      by (rule Cons.IH)
  qed
qed

lemma patterns_loop_positive:
  "patterns_loop page u element t prices ps = Inr prices' \<Longrightarrow>
   list_all positive_price prices \<Longrightarrow> list_all positive_price prices'"
proof (induction ps arbitrary: prices)
  case Nil
  then show ?case by simp
next
  case (Cons pattern ps)
  from Cons.prems(1) obtain prices1 where
    m: "matches_loop page u element t prices (findall page pattern t) = Inr prices1" and
    rest: "patterns_loop page u element t prices1 ps = Inr prices'"
    by (auto split: sum.splits)
  from m Cons.prems(2) have "list_all positive_price prices1"
    by (rule matches_loop_positive)
  with rest show ?case
    by (rule Cons.IH)
qed

lemma elements_loop_positive:
  "elements_loop page u (found_elements, prices) es = Inr (found_elements', prices') \<Longrightarrow>
   list_all positive_price prices \<Longrightarrow> list_all positive_price prices'"
proof (induction es arbitrary: found_elements prices)
  case Nil
  then show ?case by simp
next
  case (Cons element es)
  show ?case
  proof (cases "get_text_strip page element \<in> found_elements")
    case True
    with Cons.prems(1) have
      "elements_loop page u (found_elements, prices) es = Inr (found_elements', prices')"
      by simp
    from this Cons.prems(2) show ?thesis
      by (rule Cons.IH)
  next
    case False
    with Cons.prems(1) obtain prices1 where
      p: "patterns_loop page u element (get_text_strip page element) prices PRICE_PATTERNS =
            Inr prices1" and
      rest: "elements_loop page u (insert (get_text_strip page element) found_elements, prices1) es =
            Inr (found_elements', prices')"
      by (auto simp add: Let_def split: sum.splits)
    from p Cons.prems(2) have "list_all positive_price prices1"
      by (rule patterns_loop_positive)
    with rest show ?thesis
      by (rule Cons.IH)
  qed
qed

lemma selectors_loop_positive:
  "selectors_loop page html u (found_elements, prices) ss = Inr (found_elements', prices') \<Longrightarrow>
   list_all positive_price prices \<Longrightarrow> list_all positive_price prices'"
proof (induction ss arbitrary: found_elements prices)
  case Nil
  then show ?case by simp
next
  case (Cons selector ss)
  from Cons.prems(1) obtain found1 prices1 where
    e: "elements_loop page u (found_elements, prices) (select page html selector) =
          Inr (found1, prices1)" and
    rest: "selectors_loop page html u (found1, prices1) ss = Inr (found_elements', prices')"
    by (auto split: sum.splits)
  from e Cons.prems(2) have "list_all positive_price prices1"
    by (rule elements_loop_positive)
  with rest show ?case
    by (rule Cons.IH)
qed

text \<open>
  A page with one element, found by the selector \<open>[data-price]\<close>, with the text \<open>$19.99\<close>,
  in which the first pattern finds \<open>19.99\<close>.
\<close>

definition example_page :: "nat Page" where
  "example_page =
     \<lparr>select = (\<lambda>html s. if s = ''[data-price]'' then [0] else []),
      get_text_strip = (\<lambda>e. 0x24 # codes ''19.99''),
      get_text = (\<lambda>e. 0x24 # codes ''19.99''),
      parent = (\<lambda>e. None),
      find_strike = (\<lambda>e. None),
      find_heading = (\<lambda>e. None),
      find_title = (\<lambda>e. None),
      findall = (\<lambda>i t. if i = 0 then [codes ''19.99''] else []),
      search_discount = (\<lambda>i t. None),
      decimal = (\<lambda>s. if s = codes ''19.99'' then Some (Finite (1999 / 100)) else None),
      discount_of = (\<lambda>p original. 0)\<rparr>"

text \<open>
  Claim C10. \<open>normalize_price\<close> raises on no text: the guards \<open>',' in cleaned\<close> and
  \<open>'.' in cleaned\<close> keep \<open>rindex\<close> from raising, \<open>split\<close> never returns the empty list, and
  a failure of the constructor \<open>Decimal\<close> is caught and gives \<open>Decimal(0)\<close>. So it returns
  the decimal that the constructor makes of the cleaned text, and zero when the
  constructor raises. Every record that \<open>extract_prices\<close> returns has a price for which
  \<open>price > 0\<close> was evaluated to true.
\<close>

theorem price_parsing_total:
  "(\<exists>c. cleaned price_str = Inr c \<and>
        normalize_price to_decimal price_str =
          Inr (case to_decimal c of Some d \<Rightarrow> d | None \<Rightarrow> Finite 0)) \<and>
   (\<forall>prices. extract_prices page html u = Inr prices \<longrightarrow>
      list_all (\<lambda>r. dec_gt (price r) (Finite 0) = Inr True) prices)"
proof (intro conjI allI impI)
  from cleaned_returns obtain c where c: "cleaned price_str = Inr c"
    by blast
  then have "normalize_price to_decimal price_str =
      Inr (case to_decimal c of Some d \<Rightarrow> d | None \<Rightarrow> Finite 0)"
    by (simp add: normalize_price_def split: option.splits)
  with c show "\<exists>c. cleaned price_str = Inr c \<and>
      normalize_price to_decimal price_str =
        Inr (case to_decimal c of Some d \<Rightarrow> d | None \<Rightarrow> Finite 0)"
    by blast
next
  fix prices
  assume "extract_prices page html u = Inr prices"
  then obtain found_elements where
    "selectors_loop page html u ({}, []) pricing_selectors = Inr (found_elements, prices)"
    by (auto simp add: extract_prices_def split: sum.splits)
  then have "list_all positive_price prices"
    by (rule selectors_loop_positive) simp
  then show "list_all (\<lambda>r. dec_gt (price r) (Finite 0) = Inr True) prices"
    by (simp add: positive_price_def [abs_def])
qed

theorem price_parsing_total_witness:
  "extract_prices example_page [] [] =
     Inr [\<lparr>product_name = codes ''Product on '', price = Finite (1999 / 100),
           original_price = None, currency = ''USD'', is_on_sale = False,
           discount_percent = None, source_url = []\<rparr>] \<and>
   dec_gt (Finite (1999 / 100)) (Finite 0) = Inr True \<and>
   normalize_price (decimal example_page) (0x24 # codes ''1,234.56'') = Inr (Finite 0)"
proof -
  have e: "extract_prices example_page [] [] =
     Inr [\<lparr>product_name = codes ''Product on '', price = Finite (1999 / 100),
           original_price = None, currency = ''USD'', is_on_sale = False,
           discount_percent = None, source_url = []\<rparr>]"
    by (simp add: extract_prices_def pricing_selectors_def example_page_def PRICE_PATTERNS_def
          normalize_price_def cleaned_def codes_def currency_symbol_def unicode_space_def
          comma_def dot_def sale_info_def price_data_def find_product_name_def
          extract_currency_def CURRENCY_PATTERNS_def eval_nat_numeral Let_def)
  have c: "cleaned (0x24 # codes ''1,234.56'') = Inr (codes ''1234.56'')"
    by (simp add: cleaned_def codes_def currency_symbol_def unicode_space_def comma_def dot_def
          rindex_def replace_char_def Let_def)
  from price_parsing_total [of "0x24 # codes ''1,234.56''" "decimal example_page"
      example_page "[]" "[]"] e c
  show ?thesis
    by (simp add: example_page_def codes_def)
qed

end
